theory Spec2Isabelle
  imports Main
begin

section \<open>Data model of \<^verbatim>\<open>src/main.py\<close>\<close>

text \<open>
  Text is a \<open>string\<close>: one \<open>char\<close> per character of a Python \<open>str\<close>, for
  characters with a code point below 256. Python's unbounded \<open>int\<close> is \<open>int\<close>;
  list indices and lengths are \<open>nat\<close>.
\<close>

text \<open>\<^verbatim>\<open>Frame.mode\<close> is the string "active" (for \<^verbatim>\<open>#(\<close>) or "neutral" (for \<^verbatim>\<open>##(\<close>).\<close>

datatype mode = Active | Neutral

record frame =
  f_begin :: nat
  f_mode :: mode
  argument_slices :: "(nat \<times> nat) list"
  current_argument_start :: nat

text \<open>\<^verbatim>\<open>Part = str | Marker\<close>: a chunk of literal text or a numbered marker.\<close>

datatype part = Lit string | Marker nat

text \<open>Exceptions of the Python run time that the source can meet.\<close>

datatype exn = ValueError | IndexError

text \<open>
  The interpreter object. \<open>forms\<close> is a Python \<open>dict\<close>, which keeps insertion order
  (\<^verbatim>\<open>ln\<close> reads it), so it is an association list with distinct keys. \<open>frames\<close>
  is a Python list used as a stack: the innermost frame is the last element.
  \<open>stdout\<close> collects what \<^verbatim>\<open>print\<close> writes. The table \<^verbatim>\<open>builtins\<close> is
  the one that \<^verbatim>\<open>_register_core_builtins\<close> fills (no user overrides).
\<close>

record trac =
  forms :: "(string \<times> part list) list"
  active :: string
  neutral :: string
  scan :: nat
  frames :: "frame list"
  args :: "string list"
  stdout :: string

subsection \<open>Python list, dict and string operations\<close>

text \<open>\<^verbatim>\<open>xs[a:b]\<close> for non-negative \<open>a\<close>, \<open>b\<close>: indices are clamped, never an error.\<close>

definition py_slice :: "'a list \<Rightarrow> nat \<Rightarrow> nat \<Rightarrow> 'a list" where
  "py_slice xs a b = drop a (take b xs)"

text \<open>\<^verbatim>\<open>del xs[a:b]\<close> for non-negative \<open>a\<close>, \<open>b\<close>.\<close>

definition py_del_slice :: "'a list \<Rightarrow> nat \<Rightarrow> nat \<Rightarrow> 'a list" where
  "py_del_slice xs a b = take a xs @ drop (max a b) xs"

text \<open>\<^verbatim>\<open>del xs[i]\<close> with \<open>i\<close> in range.\<close>

definition del_at :: "nat \<Rightarrow> 'a list \<Rightarrow> 'a list" where
  "del_at i xs = take i xs @ drop (Suc i) xs"

text \<open>\<^verbatim>\<open>d[k] = v\<close>: an existing key keeps its place, a new key goes last.\<close>

fun dict_set :: "('k \<times> 'v) list \<Rightarrow> 'k \<Rightarrow> 'v \<Rightarrow> ('k \<times> 'v) list" where
  "dict_set [] k v = [(k, v)]"
| "dict_set ((k', v') # d) k v =
     (if k' = k then (k, v) # d else (k', v') # dict_set d k v)"

text \<open>\<^verbatim>\<open>del d[k]\<close> for a key that is present.\<close>

definition dict_del :: "('k \<times> 'v) list \<Rightarrow> 'k \<Rightarrow> ('k \<times> 'v) list" where
  "dict_del d k = filter (\<lambda>kv. fst kv \<noteq> k) d"

text \<open>\<^verbatim>\<open>sep.join(xs)\<close>.\<close>

fun py_join :: "string \<Rightarrow> string list \<Rightarrow> string" where
  "py_join sep [] = []"
| "py_join sep [x] = x"
| "py_join sep (x # y # ys) = x @ sep @ py_join sep (y # ys)"

text \<open>
  \<^verbatim>\<open>s.find(p, i)\<close>: the lowest index \<open>j \<ge> i\<close> with \<open>s[j:j+len(p)] = p\<close>;
  \<open>None\<close> stands for Python's \<open>-1\<close>.
\<close>

function py_find :: "string \<Rightarrow> string \<Rightarrow> nat \<Rightarrow> nat option" where
  "py_find s p i =
     (if length s < i + length p then None
      else if take (length p) (drop i s) = p then Some i
      else py_find s p (Suc i))"
  by pat_completeness auto
termination
  by (relation "measure (\<lambda>(s, p, i). Suc (length s) - i)") auto

declare py_find.simps [simp del]

subsection \<open>Python's \<^verbatim>\<open>int(str)\<close> and \<^verbatim>\<open>str(int)\<close>\<close>

text \<open>
  \<^verbatim>\<open>int(s)\<close> in base 10: optional white space, an optional sign, decimal digits
  in which single underscores may separate digits, optional white space; anything else
  raises \<^verbatim>\<open>ValueError\<close> (here \<open>None\<close>). The white space that \<^verbatim>\<open>int\<close> skips is,
  below code point 256, the ASCII white space (9 to 13 and 32) and the code points 133 and
  160; the separators 28 to 31, which \<^verbatim>\<open>str.isspace\<close> accepts, are not skipped.
  CPython refuses to convert between \<^verbatim>\<open>int\<close> and \<^verbatim>\<open>str\<close> in base 10 when more than
  \<^verbatim>\<open>sys.get_int_max_str_digits()\<close> digits are involved, 4300 unless the run time is
  set up otherwise: \<^verbatim>\<open>int(s)\<close> raises \<^verbatim>\<open>ValueError\<close> when \<open>s\<close> has more digits, leading
  zeros counted, and \<^verbatim>\<open>str(n)\<close> raises it when \<open>n\<close> has more digits.
\<close>

definition max_str_digits :: nat where
  "max_str_digits = 4300"

definition is_space :: "char \<Rightarrow> bool" where
  "is_space c = (of_char c \<in> {9, 10, 11, 12, 13, 32, 133, 160 :: nat})"

definition is_digit :: "char \<Rightarrow> bool" where
  "is_digit c = (48 \<le> (of_char c :: nat) \<and> (of_char c :: nat) \<le> 57)"

definition digit_val :: "char \<Rightarrow> nat" where
  "digit_val c = of_char c - 48"

text \<open>
  The digit loop: \<open>prev_us\<close> tells that the previous character was an underscore.
  It returns the value read and the rest of the text, or \<open>None\<close> on a double or a
  trailing underscore.
\<close>

fun scan_digits :: "bool \<Rightarrow> nat \<Rightarrow> string \<Rightarrow> (nat \<times> string) option" where
  "scan_digits prev_us acc [] = (if prev_us then None else Some (acc, []))"
| "scan_digits prev_us acc (c # cs) =
     (if is_digit c then scan_digits False (10 * acc + digit_val c) cs
      else if c = CHR ''_'' then (if prev_us then None else scan_digits True acc cs)
      else if prev_us then None else Some (acc, c # cs))"

definition py_int :: "string \<Rightarrow> int option" where
  "py_int s =
     (let s1 = dropWhile is_space s;
          neg = (s1 \<noteq> [] \<and> hd s1 = CHR ''-'');
          s2 = (if s1 \<noteq> [] \<and> (hd s1 = CHR ''+'' \<or> hd s1 = CHR ''-'') then tl s1 else s1)
      in if s2 = [] \<or> \<not> is_digit (hd s2) then None
         else (case scan_digits False 0 s2 of
                 None \<Rightarrow> None
               | Some (v, rest) \<Rightarrow>
                   if dropWhile is_space rest \<noteq> [] then None
                   else if max_str_digits < length (filter is_digit s2) then None
                   else Some (if neg then - int v else int v)))"

text \<open>
  The decimal text of an integer: decimal digits, a leading minus sign when negative; and
  the number of its digits.
\<close>

definition digit_char :: "nat \<Rightarrow> char" where
  "digit_char d = char_of (48 + d)"

fun str_nat :: "nat \<Rightarrow> string" where
  "str_nat n = (if n < 10 then [digit_char n] else str_nat (n div 10) @ [digit_char (n mod 10)])"

declare str_nat.simps [simp del]

definition decimal :: "int \<Rightarrow> string" where
  "decimal n = (if n < 0 then CHR ''-'' # str_nat (nat (- n)) else str_nat (nat n))"

definition ndigits :: "int \<Rightarrow> nat" where
  "ndigits n = length (str_nat (nat \<bar>n\<bar>))"

text \<open>\<^verbatim>\<open>str(n)\<close> for an integer: \<^verbatim>\<open>ValueError\<close> (here \<open>None\<close>) above the limit.\<close>

definition py_str :: "int \<Rightarrow> string option" where
  "py_str n = (if max_str_digits < ndigits n then None else Some (decimal n))"

section \<open>The processor\<close>

definition skip_chars :: "char set" where
  "skip_chars = {CHR 0x09, CHR 0x0A, CHR 0x0D, CHR 0x27}"

definition reset_processor_with :: "string \<Rightarrow> trac \<Rightarrow> trac" where
  "reset_processor_with program t =
     t\<lparr>neutral := [], active := program, scan := 0, frames := [], args := []\<rparr>"

definition clear_processor :: "trac \<Rightarrow> trac" where
  "clear_processor t = t\<lparr>neutral := [], active := [], scan := 0, frames := [], args := []\<rparr>"

definition delete_active_char :: "trac \<Rightarrow> trac" where
  "delete_active_char t =
     (if scan t < length (active t) then t\<lparr>active := del_at (scan t) (active t)\<rparr> else t)"

text \<open>\<^verbatim>\<open>self.active[self.scan]\<close> raises \<^verbatim>\<open>IndexError\<close> out of range.\<close>

definition move_active_char_to_neutral :: "trac \<Rightarrow> exn + trac" where
  "move_active_char_to_neutral t =
     (if scan t < length (active t)
      then Inr (delete_active_char (t\<lparr>neutral := neutral t @ [active t ! scan t]\<rparr>))
      else Inl IndexError)"

definition peek :: "string \<Rightarrow> trac \<Rightarrow> bool" where
  "peek expect t =
     (let i = scan t + 1
      in if length (active t) \<le> i + length expect - 1 then False
         else list_all (\<lambda>(off, c). active t ! (i + off) = c) (enumerate 0 expect))"

text \<open>
  The loop of \<^verbatim>\<open>_consume_balanced_parentheses_into_neutral\<close>; the Boolean is the
  function's return value.
\<close>

function cbp_loop :: "int \<Rightarrow> nat \<Rightarrow> trac \<Rightarrow> trac \<times> bool" where
  "cbp_loop depth i t =
     (if i < length (active t) then
        (let ch = active t ! i in
         if ch = CHR ''('' then
           cbp_loop (depth + 1) i (t\<lparr>neutral := neutral t @ [ch], active := del_at i (active t)\<rparr>)
         else if ch = CHR '')'' then
           (if depth - 1 = 0 then (t\<lparr>active := del_at i (active t)\<rparr>, True)
            else cbp_loop (depth - 1) i
                   (t\<lparr>neutral := neutral t @ [ch], active := del_at i (active t)\<rparr>))
         else cbp_loop depth i (t\<lparr>neutral := neutral t @ [ch], active := del_at i (active t)\<rparr>))
      else (t, False))"
  by pat_completeness auto
termination
  by (relation "measure (\<lambda>(depth, i, t). length (active t) - i)") (auto simp: del_at_def)

declare cbp_loop.simps [simp del]

definition consume_balanced_parentheses_into_neutral :: "trac \<Rightarrow> trac \<times> bool" where
  "consume_balanced_parentheses_into_neutral t =
     (let t1 = delete_active_char t in cbp_loop 1 (scan t1) t1)"

definition begin_function :: "mode \<Rightarrow> trac \<Rightarrow> trac" where
  "begin_function m t =
     t\<lparr>frames := frames t @
         [\<lparr>f_begin = length (neutral t), f_mode = m, argument_slices = [],
           current_argument_start = length (neutral t)\<rparr>]\<rparr>"

definition mark_argument_boundary :: "trac \<Rightarrow> trac" where
  "mark_argument_boundary t =
     (if frames t = [] then t
      else
        (let fr = last (frames t);
             current_end = length (neutral t);
             fr' = fr\<lparr>argument_slices :=
                         argument_slices fr @ [(current_argument_start fr, current_end)],
                      current_argument_start := length (neutral t)\<rparr>
         in t\<lparr>frames := butlast (frames t) @ [fr']\<rparr>))"

section \<open>The built-in primitives\<close>

text \<open>\<^verbatim>\<open>_arg(i)\<close>: the i-th argument, empty when absent.\<close>

definition arg :: "trac \<Rightarrow> nat \<Rightarrow> string" where
  "arg t i = (if i < length (args t) then args t ! i else [])"

text \<open>
  A handler gets the interpreter and returns a string or raises; it may have changed the
  interpreter before.
\<close>

type_synonym builtin = "trac \<Rightarrow> trac \<times> (exn + string)"

definition ds :: builtin where
  "ds t =
     (let name = arg t 0; body = arg t 1
      in if name = [] then (t, Inr [])
         else (t\<lparr>forms := dict_set (forms t) name [Lit body]\<rparr>, Inr []))"

text \<open>
  The \<^verbatim>\<open>while True\<close> loop of \<^verbatim>\<open>replace_pattern_in_parts\<close> over one literal
  chunk \<open>s\<close>, from index \<open>i\<close>. The source enters it with a non-empty pattern only
  (the guard at the top of \<^verbatim>\<open>replace_pattern_in_parts\<close>); the first test keeps the
  function total.
\<close>

function split_chunk :: "string \<Rightarrow> nat \<Rightarrow> string \<Rightarrow> nat \<Rightarrow> part list" where
  "split_chunk pattern num s i =
     (if pattern = [] then [Lit (drop i s)]
      else (case py_find s pattern i of
              None \<Rightarrow> [Lit (drop i s)]
            | Some j \<Rightarrow>
                Lit (py_slice s i j) # Marker num # split_chunk pattern num s (j + length pattern)))"
  by pat_completeness auto

lemma py_find_Some:
  "py_find s p i = Some j \<Longrightarrow> i \<le> j \<and> j + length p \<le> length s \<and> take (length p) (drop j s) = p"
proof (induction s p i rule: py_find.induct)
  case (1 s p i)
  show ?case
  proof (cases "length s < i + length p")
    case True
    with "1.prems" show ?thesis by (simp add: py_find.simps [of s p i])
  next
    case False
    note inrange = this
    show ?thesis
    proof (cases "take (length p) (drop i s) = p")
      case True
      with inrange "1.prems" show ?thesis by (simp add: py_find.simps [of s p i])
    next
      case False
      with inrange "1.prems" have "py_find s p (Suc i) = Some j"
        by (simp add: py_find.simps [of s p i])
      with "1.IH" [OF inrange False] show ?thesis by simp
    qed
  qed
qed

termination split_chunk
proof (relation "measure (\<lambda>(pattern, num, s, i). Suc (length s) - i)")
  show "wf (measure (\<lambda>(pattern :: string, num :: nat, s :: string, i). Suc (length s) - i))"
    by simp
next
  fix pattern :: string and num :: nat and s :: string and i j :: nat
  assume ne: "pattern \<noteq> []" and found: "py_find s pattern i = Some j"
  from py_find_Some [OF found] have "i \<le> j" and "j + length pattern \<le> length s" by simp_all
  moreover from ne have "0 < length pattern" by simp
  ultimately have "Suc (length s) - (j + length pattern) < Suc (length s) - i" by arith
  then show "((pattern, num, s, j + length pattern), (pattern, num, s, i))
      \<in> measure (\<lambda>(pattern, num, s, i). Suc (length s) - i)"
    by simp
qed

declare split_chunk.simps [simp del]

text \<open>One round of the loop that merges adjacent strings.\<close>

fun merge_step :: "part list \<Rightarrow> part \<Rightarrow> part list" where
  "merge_step merged item =
     (if merged = [] then merged @ [item]
      else (case (last merged, item) of
              (Lit a, Lit b) \<Rightarrow> butlast merged @ [Lit (a @ b)]
            | _ \<Rightarrow> merged @ [item]))"

definition replace_pattern_in_parts :: "part list \<Rightarrow> string \<Rightarrow> nat \<Rightarrow> part list" where
  "replace_pattern_in_parts parts pattern num =
     (if pattern = [] then parts
      else
        (let out = concat (map (\<lambda>part. case part of
                                         Marker n \<Rightarrow> [Marker n]
                                       | Lit s \<Rightarrow> split_chunk pattern num s 0) parts)
         in foldl merge_step [] out))"

text \<open>One round of the loop of \<^verbatim>\<open>ss\<close> over \<^verbatim>\<open>enumerate(t.args[1:], start=1)\<close>.\<close>

definition ss_step :: "part list \<Rightarrow> nat \<times> string \<Rightarrow> part list" where
  "ss_step parts ip =
     (case ip of (i, pattern) \<Rightarrow>
        if pattern \<noteq> [] then replace_pattern_in_parts parts pattern i else parts)"

definition ss :: builtin where
  "ss t =
     (let name = arg t 0
      in case map_of (forms t) name of
           None \<Rightarrow> (t, Inr [])
         | Some parts \<Rightarrow>
             (let parts' = foldl ss_step parts (enumerate 1 (drop 1 (args t)))
              in (t\<lparr>forms := dict_set (forms t) name parts'\<rparr>, Inr [])))"

text \<open>The dictionary \<^verbatim>\<open>replacement\<close> of \<^verbatim>\<open>cl\<close>, and \<^verbatim>\<open>replacement.get(n, "")\<close>.\<close>

definition replacement :: "string list \<Rightarrow> (nat \<times> string) list" where
  "replacement as =
     map (\<lambda>i. (i + 1, if i + 1 < length as then as ! (i + 1) else [])) [0..<length as]"

definition replacement_get :: "string list \<Rightarrow> nat \<Rightarrow> string" where
  "replacement_get as n = (case map_of (replacement as) n of None \<Rightarrow> [] | Some v \<Rightarrow> v)"

definition fill :: "string list \<Rightarrow> part list \<Rightarrow> string" where
  "fill as parts =
     concat (map (\<lambda>part. case part of Marker n \<Rightarrow> replacement_get as n | Lit s \<Rightarrow> s) parts)"

definition cl :: builtin where
  "cl t =
     (let name = arg t 0
      in case map_of (forms t) name of
           None \<Rightarrow> (t, Inr [])
         | Some parts \<Rightarrow> (t, Inr (fill (args t) parts)))"

definition eq :: builtin where
  "eq t =
     (let A = arg t 0; B = arg t 1; T = arg t 2; F = arg t 3
      in (t, Inr (if A = B then T else F)))"

text \<open>\<^verbatim>\<open>int(t._arg(i) or "0")\<close>.\<close>

definition int_arg :: "trac \<Rightarrow> nat \<Rightarrow> int option" where
  "int_arg t i = py_int (if arg t i = [] then ''0'' else arg t i)"

definition arith :: "(int \<Rightarrow> int \<Rightarrow> int) \<Rightarrow> builtin" where
  "arith f t =
     (case int_arg t 0 of
        None \<Rightarrow> (t, Inl ValueError)
      | Some a \<Rightarrow>
          (case int_arg t 1 of
             None \<Rightarrow> (t, Inl ValueError)
           | Some b \<Rightarrow>
               (case py_str (f a b) of
                  None \<Rightarrow> (t, Inl ValueError)
                | Some v \<Rightarrow> (t, Inr v))))"

definition ml :: builtin where
  "ml = arith (\<lambda>a b. a * b)"

definition ad :: builtin where
  "ad = arith (\<lambda>a b. a + b)"

definition su :: builtin where
  "su = arith (\<lambda>a b. a - b)"

definition ln :: builtin where
  "ln t = (let sep = arg t 0; names = map fst (forms t) in (t, Inr (py_join sep names)))"

text \<open>One round of the loop of \<^verbatim>\<open>dd\<close>.\<close>

definition dd_step :: "trac \<Rightarrow> nat \<Rightarrow> trac" where
  "dd_step t i =
     (let name = arg t i
      in if map_of (forms t) name \<noteq> None then t\<lparr>forms := dict_del (forms t) name\<rparr> else t)"

definition dd :: builtin where
  "dd t = (foldl dd_step t [0..<length (args t)], Inr [])"

definition ps :: builtin where
  "ps t = (let x = arg t 0 in (t\<lparr>stdout := stdout t @ x\<rparr>, Inr []))"

definition builtins :: "(string \<times> builtin) list" where
  "builtins =
     [(''ds'', ds), (''ss'', ss), (''cl'', cl), (''eq'', eq), (''ml'', ml),
      (''su'', su), (''ad'', ad), (''ln'', ln), (''dd'', dd), (''ps'', ps)]"

section \<open>Call termination and the scan loop\<close>

text \<open>
  The block \<^verbatim>\<open># evaluate\<close> of \<^verbatim>\<open>_end_function_and_evaluate\<close>: look the name up,
  run the handler, and turn any exception into the empty string.
\<close>

definition evaluate :: "string \<Rightarrow> trac \<Rightarrow> trac \<times> string" where
  "evaluate name t =
     (case map_of builtins name of
        Some handler \<Rightarrow>
          (case handler t of
             (t', Inr v) \<Rightarrow> (t', v)
           | (t', Inl e) \<Rightarrow> (t', []))
      | None \<Rightarrow> (t, []))"

text \<open>The block \<^verbatim>\<open># deliver\<close>.\<close>

definition deliver :: "mode \<Rightarrow> string \<Rightarrow> trac \<Rightarrow> trac" where
  "deliver m v t =
     (if m = Neutral then t\<lparr>neutral := neutral t @ v\<rparr>
      else t\<lparr>active := v @ drop (scan t) (active t), scan := 0\<rparr>)"

definition end_function_and_evaluate :: "trac \<Rightarrow> trac" where
  "end_function_and_evaluate t =
     (if frames t = [] then clear_processor t
      else
        (let fr0 = last (frames t);
             t1 = t\<lparr>frames := butlast (frames t)\<rparr>;
             final_end = length (neutral t1);
             fr = fr0\<lparr>argument_slices :=
                        argument_slices fr0 @ [(current_argument_start fr0, final_end)]\<rparr>;
             body_start = f_begin fr;
             body_end = final_end;
             as = map (\<lambda>(a, b). py_slice (neutral t1) a b) (argument_slices fr);
             t2 = t1\<lparr>neutral := py_del_slice (neutral t1) body_start body_end\<rparr>;
             name = (if as \<noteq> [] then hd as else []);
             t3 = t2\<lparr>args := drop 1 as\<rparr>;
             (t4, v) = evaluate name t3;
             t5 = deliver (f_mode fr) v t4
         in t5\<lparr>args := []\<rparr>))"

text \<open>
  One round of the \<^verbatim>\<open>while True\<close> loop of \<^verbatim>\<open>execute\<close>, entered with
  \<open>scan < len(active)\<close>. The Boolean tells that the round ended in \<^verbatim>\<open>break\<close>.
\<close>

definition body :: "trac \<Rightarrow> exn + trac \<times> bool" where
  "body t =
     (let ch = active t ! scan t in
      if ch \<in> skip_chars then Inr (delete_active_char t, False)
      else if ch = CHR ''('' then
        (case consume_balanced_parentheses_into_neutral t of
           (t', ok) \<Rightarrow> if \<not> ok then Inr (clear_processor t', True) else Inr (t', False))
      else if ch = CHR '','' then Inr (mark_argument_boundary (delete_active_char t), False)
      else if ch = CHR ''#'' then
        (if peek ''('' t then
           Inr (begin_function Active (delete_active_char (delete_active_char t)), False)
         else if peek ''#('' t then
           Inr (begin_function Neutral
                  (delete_active_char (delete_active_char (delete_active_char t))), False)
         else (case move_active_char_to_neutral t of
                 Inl e \<Rightarrow> Inl e
               | Inr t' \<Rightarrow> Inr (t', False)))
      else if ch = CHR '')'' then
        Inr (end_function_and_evaluate (delete_active_char t), False)
      else (case move_active_char_to_neutral t of
              Inl e \<Rightarrow> Inl e
            | Inr t' \<Rightarrow> Inr (t', False)))"

text \<open>
  The loop may run forever (a form can call itself), so it is a partial function:
  \<open>None\<close> is a run that never returns, \<open>Some (Inl e)\<close> a run that raises \<open>e\<close>.
\<close>

partial_function (option) loop :: "trac \<Rightarrow> (exn + trac) option" where
  "loop t =
     (if length (active t) \<le> scan t then Some (Inr t)
      else (case body t of
              Inl e \<Rightarrow> Some (Inl e)
            | Inr (t', brk) \<Rightarrow> if brk then Some (Inr t') else loop t'))"

declare loop.simps [code]

text \<open>\<^verbatim>\<open>execute\<close>: the text returned and the interpreter afterwards.\<close>

definition execute :: "string \<Rightarrow> trac \<Rightarrow> (exn + string \<times> trac) option" where
  "execute s t =
     (case loop (reset_processor_with s (t\<lparr>stdout := stdout t @ s @ [CHR 0x0A]\<rparr>)) of
        None \<Rightarrow> None
      | Some (Inl e) \<Rightarrow> Some (Inl e)
      | Some (Inr t') \<Rightarrow> Some (Inr (neutral t', t')))"

text \<open>\<^verbatim>\<open>TRAC()\<close>: a fresh interpreter.\<close>

definition new_trac :: trac where
  "new_trac = \<lparr>forms = [], active = [], neutral = [], scan = 0, frames = [], args = [],
               stdout = []\<rparr>"

section \<open>Auxiliary notions for the proofs\<close>

text \<open>The processor part of two interpreters is the same: a handler may only change the
  form store and the output.\<close>

definition same_processor :: "trac \<Rightarrow> trac \<Rightarrow> bool" where
  "same_processor t t' =
     (active t' = active t \<and> neutral t' = neutral t \<and> scan t' = scan t
      \<and> frames t' = frames t \<and> args t' = args t)"

text \<open>
  The interpreter after at most \<open>n\<close> rounds of the loop of \<^verbatim>\<open>execute\<close>: the states a
  run goes through.
\<close>

fun steps :: "nat \<Rightarrow> trac \<Rightarrow> trac" where
  "steps 0 t = t"
| "steps (Suc n) t =
     (if length (active t) \<le> scan t then t
      else (case body t of
              Inl e \<Rightarrow> t
            | Inr (t', brk) \<Rightarrow> if brk then t' else steps n t'))"

text \<open>
  The arguments that \<^verbatim>\<open>_end_function_and_evaluate\<close> extracts for the innermost frame
  (the name of the primitive first), and the interpreter it hands to the handler.
\<close>

definition call_args :: "trac \<Rightarrow> string list" where
  "call_args t =
     map (\<lambda>(a, b). py_slice (neutral t) a b)
       (argument_slices (last (frames t))
          @ [(current_argument_start (last (frames t)), length (neutral t))])"

definition pre_call :: "trac \<Rightarrow> trac" where
  "pre_call t =
     t\<lparr>frames := butlast (frames t),
       neutral := take (f_begin (last (frames t))) (neutral t),
       args := drop 1 (call_args t)\<rparr>"

text \<open>
  The frames of the stack begin at non-decreasing places of \<open>neutral\<close>, none beyond
  its end.
\<close>

definition frames_inv :: "trac \<Rightarrow> bool" where
  "frames_inv t =
     (sorted (map f_begin (frames t)) \<and> list_all (\<lambda>f. f_begin f \<le> length (neutral t)) (frames t))"

text \<open>
  The text after a \<^verbatim>\<open>(\<close> holds no matching \<^verbatim>\<open>)\<close>: no prefix of it has more
  closing than opening parentheses.
\<close>

definition no_matching_close :: "string \<Rightarrow> bool" where
  "no_matching_close xs =
     list_all (\<lambda>k. count_list (take k xs) (CHR '')'') \<le> count_list (take k xs) (CHR ''(''))
       [0..<Suc (length xs)]"

text \<open>
  The record aborts in this round: a \<^verbatim>\<open>)\<close> under the cursor with no frame open, or a
  \<^verbatim>\<open>(\<close> under the cursor with no matching \<^verbatim>\<open>)\<close> in the rest of \<open>active\<close>.
\<close>

definition aborts :: "trac \<Rightarrow> bool" where
  "aborts t =
     (scan t < length (active t) \<and>
      (if active t ! scan t = CHR '')'' then frames t = []
       else active t ! scan t = CHR ''('' \<and> no_matching_close (drop (Suc (scan t)) (active t))))"

text \<open>
  A character that the scanner treats as ordinary text wherever it stands, a \<^verbatim>\<open>#\<close>
  apart: not idle, not a parenthesis, not a comma.
\<close>

definition plain :: "char \<Rightarrow> bool" where
  "plain c = (c \<notin> skip_chars \<and> c \<noteq> CHR ''('' \<and> c \<noteq> CHR '')'' \<and> c \<noteq> CHR '','')"

text \<open>
  What \<^verbatim>\<open>_consume_balanced_parentheses_into_neutral\<close> does to the text after the
  \<^verbatim>\<open>(\<close>, on lists: the text copied and the text left after the matching \<^verbatim>\<open>)\<close>, or
  \<open>None\<close> when nothing matches.
\<close>

fun paren_split :: "int \<Rightarrow> string \<Rightarrow> (string \<times> string) option" where
  "paren_split d [] = None"
| "paren_split d (c # cs) =
     (if c = CHR ''('' then map_option (\<lambda>(x, r). (c # x, r)) (paren_split (d + 1) cs)
      else if c = CHR '')'' then
        (if d - 1 = 0 then Some ([], cs)
         else map_option (\<lambda>(x, r). (c # x, r)) (paren_split (d - 1) cs))
      else map_option (\<lambda>(x, r). (c # x, r)) (paren_split d cs))"

text \<open>The interpreter without what it has printed.\<close>

definition erase :: "trac \<Rightarrow> trac" where
  "erase t = t\<lparr>stdout := []\<rparr>"

text \<open>The result of \<^verbatim>\<open>execute\<close> without what has been printed.\<close>

definition without_output :: "(exn + string \<times> trac) option \<Rightarrow> (exn + string \<times> trac) option" where
  "without_output r = map_option (map_sum id (\<lambda>(out, u). (out, erase u))) r"



text \<open>
  The interpreter \<open>t\<close> in the middle of a run: \<open>a\<close> still to scan, \<open>nt\<close> in
  \<open>neutral\<close>, the frames \<open>fs\<close> open.
\<close>

definition st :: "trac \<Rightarrow> string \<Rightarrow> string \<Rightarrow> frame list \<Rightarrow> trac" where
  "st t a nt fs = t\<lparr>active := a, neutral := nt, frames := fs, scan := 0, args := []\<rparr>"




text \<open>
  The first pair of the list whose non-empty pattern is a prefix of the text \<open>s\<close>.
\<close>

fun first_match :: "(string \<times> 'a) list \<Rightarrow> string \<Rightarrow> (string \<times> 'a) option" where
  "first_match [] s = None"
| "first_match ((p, a) # pats) s =
     (if p \<noteq> [] \<and> take (length p) s = p then Some (p, a) else first_match pats s)"

text \<open>
  Modelled on the words of the spec: the text \<open>s\<close> with every occurrence of a pattern
  replaced by its argument, matching left to right, without overlap.
\<close>

function spec_replace :: "(string \<times> string) list \<Rightarrow> string \<Rightarrow> string" where
  "spec_replace pats s =
     (if s = [] then []
      else (case first_match pats s of
              Some (p, a) \<Rightarrow> a @ spec_replace pats (drop (length p) s)
            | None \<Rightarrow> hd s # spec_replace pats (tl s)))"
  by pat_completeness auto
termination
proof (relation "measure (\<lambda>(pats, s). length s)")
  show "wf (measure (\<lambda>(pats :: (string \<times> string) list, s :: string). length s))" by simp
next
  fix pats :: "(string \<times> string) list" and s :: string and x2 x y
  assume "s \<noteq> []" and "first_match pats s = Some x2" and "(x, y) = x2"
  then have "first_match pats s = Some (x, y)" by simp
  then have "x \<noteq> []" by (induction pats) (auto split: if_splits)
  with \<open>s \<noteq> []\<close> have "length s - length x < length s" by (cases s; cases x) simp_all
  then show "((pats, drop (length x) s), pats, s) \<in> measure (\<lambda>(pats, s). length s)" by simp
next
  fix pats :: "(string \<times> string) list" and s :: string
  assume "s \<noteq> []"
  then show "((pats, tl s), pats, s) \<in> measure (\<lambda>(pats, s). length s)" by (cases s) simp_all
qed

text \<open>A non-empty pattern occurs in a text at an index.\<close>

definition occurs_at :: "string \<Rightarrow> string \<Rightarrow> nat \<Rightarrow> bool" where
  "occurs_at p s x = (p \<noteq> [] \<and> x + length p \<le> length s \<and> take (length p) (drop x s) = p)"

text \<open>
  No occurrence of a pattern in \<open>B\<close> shares a character with an occurrence of a pattern
  at another place of the list.
\<close>

definition overlap_free :: "string list \<Rightarrow> string \<Rightarrow> bool" where
  "overlap_free Ps B =
     list_all (\<lambda>i. list_all (\<lambda>j. list_all (\<lambda>x. list_all (\<lambda>y.
         i = j \<or> \<not> occurs_at (Ps ! i) B x \<or> \<not> occurs_at (Ps ! j) B y
         \<or> x + length (Ps ! i) \<le> y \<or> y + length (Ps ! j) \<le> x)
       [0..<length B]) [0..<length B]) [0..<length Ps]) [0..<length Ps]"

text \<open>
  No occurrence of a pattern in \<open>B\<close> lies inside an occurrence of a pattern at another
  place of the list.
\<close>

definition nesting_free :: "string list \<Rightarrow> string \<Rightarrow> bool" where
  "nesting_free Ps B =
     list_all (\<lambda>i. list_all (\<lambda>j. list_all (\<lambda>x. list_all (\<lambda>y.
         i = j \<or> \<not> occurs_at (Ps ! i) B x \<or> \<not> occurs_at (Ps ! j) B y
         \<or> \<not> (y \<le> x \<and> x + length (Ps ! i) \<le> y + length (Ps ! j)))
       [0..<length B]) [0..<length B]) [0..<length Ps]) [0..<length Ps]"

text \<open>
  The parts that all the patterns of a list cut a text into, in one pass from left to
  right: a literal chunk (maybe empty) before, between and after the markers.
\<close>

fun prepend :: "string \<Rightarrow> part list \<Rightarrow> part list" where
  "prepend u (Lit x # r) = Lit (u @ x) # r"
| "prepend u parts = Lit u # parts"

function spec_parts :: "(string \<times> nat) list \<Rightarrow> string \<Rightarrow> part list" where
  "spec_parts pats s =
     (if s = [] then [Lit []]
      else (case first_match pats s of
              Some (p, n) \<Rightarrow> Lit [] # Marker n # spec_parts pats (drop (length p) s)
            | None \<Rightarrow> prepend [hd s] (spec_parts pats (tl s))))"
  by pat_completeness auto
termination
proof (relation "measure (\<lambda>(pats, s). length s)")
  show "wf (measure (\<lambda>(pats :: (string \<times> nat) list, s :: string). length s))" by simp
next
  fix pats :: "(string \<times> nat) list" and s :: string and x2 x y
  assume "s \<noteq> []" and "first_match pats s = Some x2" and "(x, y) = x2"
  then have "first_match pats s = Some (x, y)" by simp
  then have "x \<noteq> []" by (induction pats) (auto split: if_splits)
  with \<open>s \<noteq> []\<close> have "length s - length x < length s" by (cases s; cases x) simp_all
  then show "((pats, drop (length x) s), pats, s) \<in> measure (\<lambda>(pats, s). length s)" by simp
next
  fix pats :: "(string \<times> nat) list" and s :: string
  assume "s \<noteq> []"
  then show "((pats, tl s), pats, s) \<in> measure (\<lambda>(pats, s). length s)" by (cases s) simp_all
qed

text \<open>A literal chunk, then markers each followed by a literal chunk.\<close>

fun alt :: "part list \<Rightarrow> bool" where
  "alt [Lit x] = True"
| "alt (Lit x # Marker n # rest) = alt rest"
| "alt parts = False"

section \<open>What a primitive may change\<close>

lemma map_of_builtins_cases:
  "map_of builtins name =
     (if name = ''ds'' then Some ds else if name = ''ss'' then Some ss
      else if name = ''cl'' then Some cl else if name = ''eq'' then Some eq
      else if name = ''ml'' then Some ml else if name = ''su'' then Some su
      else if name = ''ad'' then Some ad else if name = ''ln'' then Some ln
      else if name = ''dd'' then Some dd else if name = ''ps'' then Some ps else None)"
  by (simp add: builtins_def)

lemma arith_state: "fst (arith f t) = t"
  by (simp add: arith_def split: option.splits)

lemma cl_state: "fst (cl t) = t"
  by (simp add: cl_def Let_def split: option.splits)

lemma eq_state: "fst (eq t) = t"
  by (simp add: eq_def Let_def)

lemma ln_state: "fst (ln t) = t"
  by (simp add: ln_def Let_def)

lemma ps_forms: "forms (fst (ps t)) = forms t"
  by (simp add: ps_def Let_def)

lemma evaluate_fst:
  "fst (evaluate name t) = (case map_of builtins name of Some h \<Rightarrow> fst (h t) | None \<Rightarrow> t)"
  by (simp add: evaluate_def split: option.splits prod.splits sum.splits)

text \<open>
  C10. Each of \<^verbatim>\<open>cl, eq, ml, ad, su, ln, ps\<close> is a registered primitive whose handler
  leaves the form store as it found it, and so does the evaluation step of the processor
  that runs it.
\<close>

theorem other_primitives_keep_forms:
  assumes "name \<in> {''cl'', ''eq'', ''ml'', ''ad'', ''su'', ''ln'', ''ps''}"
  shows "\<exists>h. map_of builtins name = Some h \<and> forms (fst (h t)) = forms t
           \<and> forms (fst (evaluate name t)) = forms t"
  using assms
  by (auto simp: evaluate_fst map_of_builtins_cases ml_def ad_def su_def arith_state cl_state
      eq_state ln_state ps_forms)

theorem other_primitives_keep_forms_witness:
  "\<exists>h. map_of builtins ''ps'' = Some h
      \<and> forms (fst (h (new_trac\<lparr>forms := [(''A'', [Lit ''x''])], args := [''A'']\<rparr>)))
          = [(''A'', [Lit ''x''])]
      \<and> forms (fst (evaluate ''ps'' (new_trac\<lparr>forms := [(''A'', [Lit ''x''])], args := [''A'']\<rparr>)))
          = [(''A'', [Lit ''x''])]"
  using other_primitives_keep_forms
          [of "''ps''" "new_trac\<lparr>forms := [(''A'', [Lit ''x''])], args := [''A'']\<rparr>"]
  by simp

section \<open>The scan loop: rounds, runs and what they preserve\<close>

lemma same_processor_refl: "same_processor t t"
  by (simp add: same_processor_def)

lemma dd_step_same: "same_processor t (dd_step t i)"
  by (simp add: dd_step_def Let_def same_processor_def)

lemma same_processor_trans: "same_processor a b \<Longrightarrow> same_processor b c \<Longrightarrow> same_processor a c"
  by (simp add: same_processor_def)

lemma dd_fold_same: "same_processor t (foldl dd_step t is)"
proof (induction "is" rule: rev_induct)
  case Nil
  show ?case by (simp add: same_processor_def)
next
  case (snoc i "is")
  then show ?case using same_processor_trans [OF snoc dd_step_same] by simp
qed

lemma ds_same: "same_processor t (fst (ds t))"
  by (simp add: ds_def Let_def same_processor_def)

lemma ss_same: "same_processor t (fst (ss t))"
  by (simp add: ss_def Let_def same_processor_def split: option.splits)

lemma dd_same: "same_processor t (fst (dd t))"
  by (simp add: dd_def dd_fold_same)

lemma ps_same: "same_processor t (fst (ps t))"
  by (simp add: ps_def Let_def same_processor_def)

lemma handler_same_processor:
  assumes "map_of builtins name = Some h"
  shows "same_processor t (fst (h t))"
proof -
  from assms have "h \<in> {ds, ss, cl, eq, ml, su, ad, ln, dd, ps}"
    by (simp add: map_of_builtins_cases split: if_splits)
  then show ?thesis
    by (auto simp: ds_same ss_same dd_same ps_same ml_def ad_def su_def arith_state cl_state
        eq_state ln_state same_processor_refl)
qed

lemma evaluate_same_processor: "same_processor t (fst (evaluate name t))"
  by (simp add: evaluate_fst handler_same_processor same_processor_refl split: option.splits)

lemma delete_active_char_eq:
  "scan t < length (active t) \<Longrightarrow> delete_active_char t = t\<lparr>active := del_at (scan t) (active t)\<rparr>"
  by (simp add: delete_active_char_def)

lemma cbp_loop_end: "\<not> i < length (active t) \<Longrightarrow> cbp_loop d i t = (t, False)"
  by (subst cbp_loop.simps) simp

lemma cbp_loop_open:
  "i < length (active t) \<Longrightarrow> active t ! i = CHR ''('' \<Longrightarrow>
   cbp_loop d i t
     = cbp_loop (d + 1) i (t\<lparr>neutral := neutral t @ [CHR ''(''], active := del_at i (active t)\<rparr>)"
  by (subst cbp_loop.simps) simp

lemma cbp_loop_close_last:
  "i < length (active t) \<Longrightarrow> active t ! i = CHR '')'' \<Longrightarrow> d = 1 \<Longrightarrow>
   cbp_loop d i t = (t\<lparr>active := del_at i (active t)\<rparr>, True)"
  by (subst cbp_loop.simps) simp

lemma cbp_loop_close:
  "i < length (active t) \<Longrightarrow> active t ! i = CHR '')'' \<Longrightarrow> d \<noteq> 1 \<Longrightarrow>
   cbp_loop d i t
     = cbp_loop (d - 1) i (t\<lparr>neutral := neutral t @ [CHR '')''], active := del_at i (active t)\<rparr>)"
  by (subst cbp_loop.simps) simp

lemma cbp_loop_other:
  "i < length (active t) \<Longrightarrow> active t ! i \<noteq> CHR ''('' \<Longrightarrow> active t ! i \<noteq> CHR '')'' \<Longrightarrow>
   cbp_loop d i t
     = cbp_loop d i (t\<lparr>neutral := neutral t @ [active t ! i], active := del_at i (active t)\<rparr>)"
  by (subst cbp_loop.simps) (simp add: Let_def)

lemma cbp_loop_preserves:
  assumes app: "\<And>t c. P t \<Longrightarrow> P (t\<lparr>neutral := neutral t @ [c]\<rparr>)"
    and del: "\<And>t. P t \<Longrightarrow> P (delete_active_char t)"
  shows "P t \<Longrightarrow> scan t = i \<Longrightarrow> P (fst (cbp_loop d i t)) \<and> scan (fst (cbp_loop d i t)) = i"
proof (induction d i t rule: cbp_loop.induct)
  case (1 depth i t)
  show ?case
  proof (cases "i < length (active t)")
    case False
    with "1.prems" show ?thesis by (simp add: cbp_loop_end)
  next
    case True
    let ?ch = "active t ! i"
    let ?t' = "t\<lparr>neutral := neutral t @ [?ch], active := del_at i (active t)\<rparr>"
    have d0: "P (t\<lparr>active := del_at i (active t)\<rparr>)"
      using del [OF "1.prems"(1)] True "1.prems"(2) by (simp add: delete_active_char_def)
    have "P (delete_active_char (t\<lparr>neutral := neutral t @ [?ch]\<rparr>))"
      by (rule del [OF app [OF "1.prems"(1)]])
    then have P': "P ?t'" using True "1.prems"(2) by (simp add: delete_active_char_def)
    have s': "scan ?t' = i" using "1.prems"(2) by simp
    show ?thesis
    proof (cases "?ch = CHR ''(''")
      case open_paren: True
      from "1.IH"(1) [OF True refl open_paren P' s'] open_paren
      show ?thesis by (simp add: cbp_loop_open [OF True open_paren])
    next
      case not_open: False
      show ?thesis
      proof (cases "?ch = CHR '')''")
        case close_paren: True
        show ?thesis
        proof (cases "depth - 1 = 0")
          case True
          then have "depth = 1" by simp
          from cbp_loop_close_last [OF \<open>i < length (active t)\<close> close_paren this] d0 "1.prems"(2)
          show ?thesis by simp
        next
          case False
          then have "depth \<noteq> 1" by simp
          from "1.IH"(2) [OF \<open>i < length (active t)\<close> refl not_open close_paren False P' s']
            close_paren cbp_loop_close [OF \<open>i < length (active t)\<close> close_paren this]
          show ?thesis by simp
        qed
      next
        case False
        from "1.IH"(3) [OF True refl not_open False P' s']
          cbp_loop_other [OF True not_open False]
        show ?thesis by simp
      qed
    qed
  qed
qed

lemma move_active_char_to_neutral_eq:
  "scan t < length (active t) \<Longrightarrow>
   move_active_char_to_neutral t
     = Inr (delete_active_char (t\<lparr>neutral := neutral t @ [active t ! scan t]\<rparr>))"
  by (simp add: move_active_char_to_neutral_def)

lemma body_total:
  assumes "scan t < length (active t)"
  shows "\<exists>t' brk. body t = Inr (t', brk)"
  using assms
  by (auto simp: body_def Let_def move_active_char_to_neutral_eq split: prod.splits)

lemma delete_active_char_scan: "scan (delete_active_char t) = scan t"
  by (simp add: delete_active_char_def)

lemma body_preserves:
  assumes app: "\<And>t c. P t \<Longrightarrow> P (t\<lparr>neutral := neutral t @ [c]\<rparr>)"
    and del: "\<And>t. P t \<Longrightarrow> P (delete_active_char t)"
    and clear: "\<And>t. P (clear_processor t)"
    and mark: "\<And>t. P t \<Longrightarrow> P (mark_argument_boundary t)"
    and push: "\<And>t m. P t \<Longrightarrow> P (begin_function m t)"
    and efe: "\<And>t. P t \<Longrightarrow> P (end_function_and_evaluate t)"
    and inrange: "scan t < length (active t)"
    and P: "P t"
    and b: "body t = Inr (t', brk)"
  shows "P t'"
proof -
  have cbp: "P (fst (consume_balanced_parentheses_into_neutral t))"
    unfolding consume_balanced_parentheses_into_neutral_def Let_def
    using cbp_loop_preserves [of P, OF app del del [OF P] refl] by simp
  have mv: "P (delete_active_char (t\<lparr>neutral := neutral t @ [active t ! scan t]\<rparr>))"
    by (rule del [OF app [OF P]])
  from b show ?thesis
    using cbp mv clear del [OF P] mark [OF del [OF P]] push [OF del [OF del [OF P]]]
      push [OF del [OF del [OF del [OF P]]]] efe [OF del [OF P]]
    by (auto simp: body_def Let_def move_active_char_to_neutral_eq [OF inrange]
        split: prod.splits if_splits)
qed

lemma body_break:
  assumes "body t = Inr (t', True)"
  shows "\<exists>u. t' = clear_processor u \<and> forms u = forms t \<and> stdout u = stdout t"
proof -
  let ?Q = "\<lambda>u. forms u = forms t \<and> stdout u = stdout t"
  have "?Q (fst (cbp_loop 1 (scan (delete_active_char t)) (delete_active_char t)))"
    using cbp_loop_preserves [of ?Q "delete_active_char t" "scan (delete_active_char t)" 1]
    by (simp add: delete_active_char_def)
  with assms show ?thesis
    by (auto simp: body_def Let_def consume_balanced_parentheses_into_neutral_def
        move_active_char_to_neutral_def split: prod.splits if_splits)
qed

lemma steps_preserves:
  assumes app: "\<And>t c. P t \<Longrightarrow> P (t\<lparr>neutral := neutral t @ [c]\<rparr>)"
    and del: "\<And>t. P t \<Longrightarrow> P (delete_active_char t)"
    and clear: "\<And>t. P (clear_processor t)"
    and mark: "\<And>t. P t \<Longrightarrow> P (mark_argument_boundary t)"
    and push: "\<And>t m. P t \<Longrightarrow> P (begin_function m t)"
    and efe: "\<And>t. P t \<Longrightarrow> P (end_function_and_evaluate t)"
  shows "P t \<Longrightarrow> P (steps n t)"
proof (induction n arbitrary: t)
  case 0
  then show ?case by simp
next
  case (Suc n)
  show ?case
  proof (cases "length (active t) \<le> scan t")
    case True
    with Suc.prems show ?thesis by simp
  next
    case False
    then have inrange: "scan t < length (active t)" by simp
    from body_total [OF inrange] obtain t' brk where b: "body t = Inr (t', brk)" by blast
    have "P t'"
      by (rule body_preserves [of P, OF app del clear mark push efe inrange Suc.prems b])
    with Suc.IH [of t'] b False show ?thesis by simp
  qed
qed

lemma loop_halted: "length (active t) \<le> scan t \<Longrightarrow> loop t = Some (Inr t)"
  by (subst loop.simps) simp

lemma loop_step:
  "scan t < length (active t) \<Longrightarrow> body t = Inr (t', False) \<Longrightarrow> loop t = loop t'"
  by (subst loop.simps) simp

lemma loop_break:
  "scan t < length (active t) \<Longrightarrow> body t = Inr (t', True) \<Longrightarrow> loop t = Some (Inr t')"
  by (subst loop.simps) simp

lemma loop_steps: "loop (steps n t) = loop t"
proof (induction n arbitrary: t)
  case 0
  show ?case by simp
next
  case (Suc n)
  show ?case
  proof (cases "length (active t) \<le> scan t")
    case True
    then show ?thesis by simp
  next
    case False
    then have inrange: "scan t < length (active t)" by simp
    from body_total [OF inrange] obtain t' brk where b: "body t = Inr (t', brk)" by blast
    show ?thesis
    proof (cases brk)
      case True
      with b body_break [of t t'] have "active t' = []" by (auto simp: clear_processor_def)
      then have "loop t' = Some (Inr t')" by (simp add: loop_halted)
      with True b inrange False show ?thesis by (simp add: loop_break)
    next
      case False
      with b inrange Suc.IH [of t'] show ?thesis by (simp add: loop_step)
    qed
  qed
qed

lemma loop_Some_steps:
  assumes "loop t = Some r"
  shows "\<exists>n. r = Inr (steps n t) \<and> length (active (steps n t)) \<le> scan (steps n t)"
proof (rule loop.raw_induct
    [where P = "\<lambda>t r. \<exists>n. r = Inr (steps n t) \<and> length (active (steps n t)) \<le> scan (steps n t)",
      OF _ assms])
  fix loop' :: "trac \<Rightarrow> (exn + trac) option" and t r
  assume IH: "\<And>x y. loop' x = Some y \<Longrightarrow>
      \<exists>n. y = Inr (steps n x) \<and> length (active (steps n x)) \<le> scan (steps n x)"
    and eq: "(if length (active t) \<le> scan t then Some (Inr t)
      else case body t of Inl e \<Rightarrow> Some (Inl e)
           | Inr (t', brk) \<Rightarrow> if brk then Some (Inr t') else loop' t') = Some r"
  show "\<exists>n. r = Inr (steps n t) \<and> length (active (steps n t)) \<le> scan (steps n t)"
  proof (cases "length (active t) \<le> scan t")
    case True
    with eq have "r = Inr (steps 0 t)" by simp
    with True show ?thesis by (intro exI [of _ 0]) simp
  next
    case False
    then have inrange: "scan t < length (active t)" by simp
    from body_total [OF inrange] obtain t' brk where b: "body t = Inr (t', brk)" by blast
    show ?thesis
    proof (cases brk)
      case True
      with b body_break [of t t'] have "active t' = []" by (auto simp: clear_processor_def)
      moreover from True b False eq have "r = Inr t'" by simp
      moreover from True b False have "steps (Suc 0) t = t'" by simp
      ultimately show ?thesis by (intro exI [of _ "Suc 0"]) simp
    next
      case nb: False
      with b False eq have "loop' t' = Some r" by simp
      from IH [OF this] obtain n where
        "r = Inr (steps n t')" "length (active (steps n t')) \<le> scan (steps n t')" by blast
      with nb b False show ?thesis by (intro exI [of _ "Suc n"]) simp
    qed
  qed
qed

lemma steps_halted_loop:
  "length (active (steps n t)) \<le> scan (steps n t) \<Longrightarrow> loop t = Some (Inr (steps n t))"
  using loop_steps [of n t] by (simp add: loop_halted)

lemma efe_empty: "frames t = [] \<Longrightarrow> end_function_and_evaluate t = clear_processor t"
  by (simp add: end_function_and_evaluate_def)

lemma efe_unfold:
  assumes "frames t \<noteq> []"
  shows "end_function_and_evaluate t =
    (deliver (f_mode (last (frames t))) (snd (evaluate (hd (call_args t)) (pre_call t)))
       (fst (evaluate (hd (call_args t)) (pre_call t))))\<lparr>args := []\<rparr>"
  using assms
  by (simp add: end_function_and_evaluate_def call_args_def pre_call_def Let_def
      py_del_slice_def split: prod.splits)

lemma efe_args: "args (end_function_and_evaluate t) = []"
  by (cases "frames t = []") (simp_all add: efe_empty efe_unfold clear_processor_def)

lemma evaluate_same: "evaluate name t = (t', v) \<Longrightarrow> same_processor t t'"
  using evaluate_same_processor [of t name] by simp

lemma efe_scan: "scan t = 0 \<Longrightarrow> scan (end_function_and_evaluate t) = 0"
proof (cases "frames t = []")
  case True
  then show ?thesis by (simp add: efe_empty clear_processor_def)
next
  case False
  assume "scan t = 0"
  obtain t' v where ev: "evaluate (hd (call_args t)) (pre_call t) = (t', v)" by force
  from evaluate_same [OF ev] \<open>scan t = 0\<close> have "scan t' = 0"
    by (simp add: same_processor_def pre_call_def)
  with ev False show ?thesis by (simp add: efe_unfold deliver_def)
qed

lemma scan_args_steps:
  assumes "scan t = 0" and "args t = []"
  shows "scan (steps n t) = 0 \<and> args (steps n t) = []"
proof -
  have "(scan t = 0 \<and> args t = []) \<longrightarrow> (scan (steps n t) = 0 \<and> args (steps n t) = [])"
    by (rule impI, rule steps_preserves [where P = "\<lambda>t. scan t = 0 \<and> args t = []"])
      (simp_all add: delete_active_char_def clear_processor_def mark_argument_boundary_def
        Let_def begin_function_def efe_args efe_scan)
  with assms show ?thesis by simp
qed

lemma execute_Some:
  assumes "execute s t = Some r"
  shows "\<exists>n. r = Inr (neutral (steps n (reset_processor_with s (t\<lparr>stdout := stdout t @ s @ [CHR 0x0A]\<rparr>))),
                    steps n (reset_processor_with s (t\<lparr>stdout := stdout t @ s @ [CHR 0x0A]\<rparr>)))
          \<and> length (active (steps n (reset_processor_with s (t\<lparr>stdout := stdout t @ s @ [CHR 0x0A]\<rparr>))))
              \<le> scan (steps n (reset_processor_with s (t\<lparr>stdout := stdout t @ s @ [CHR 0x0A]\<rparr>)))"
proof -
  let ?t0 = "reset_processor_with s (t\<lparr>stdout := stdout t @ s @ [CHR 0x0A]\<rparr>)"
  from assms obtain r' where l: "loop ?t0 = Some r'"
    by (auto simp: execute_def split: option.splits)
  from loop_Some_steps [OF l] obtain n where
    n: "r' = Inr (steps n ?t0)" "length (active (steps n ?t0)) \<le> scan (steps n ?t0)" by blast
  with assms l have "r = Inr (neutral (steps n ?t0), steps n ?t0)" by (simp add: execute_def)
  with n show ?thesis by blast
qed

section \<open>The interpreter after \<^verbatim>\<open>execute\<close>\<close>

text \<open>
  C7, as stated, fails: \<^verbatim>\<open>execute\<close> resets the processor when it starts, not when
  it ends. After \<^verbatim>\<open>execute("#(a")\<close> on a fresh interpreter \<open>neutral\<close> still holds
  the text returned and \<open>frames\<close> still holds the call that was never closed.
\<close>

theorem after_execute_buffers_kept:
  "execute ''#(a'' new_trac = Some (Inr (''a'',
     \<lparr>forms = [], active = [], neutral = ''a'', scan = 0,
       frames = [\<lparr>f_begin = 0, f_mode = Active, argument_slices = [],
                  current_argument_start = 0\<rparr>],
       args = [], stdout = ''#(a'' @ [CHR 0x0A]\<rparr>))"
  by code_simp

text \<open>
  C7, amended: whenever \<^verbatim>\<open>execute\<close> returns, it returns normally, \<open>active\<close> and
  \<open>args\<close> are empty, \<open>scan\<close> is 0, and \<open>neutral\<close> holds exactly the text returned.
\<close>

theorem after_execute:
  assumes "execute s t = Some r"
  shows "\<exists>out t'. r = Inr (out, t') \<and> active t' = [] \<and> args t' = [] \<and> scan t' = 0
           \<and> neutral t' = out"
proof -
  let ?t0 = "reset_processor_with s (t\<lparr>stdout := stdout t @ s @ [CHR 0x0A]\<rparr>)"
  from execute_Some [OF assms] obtain n where
    n: "r = Inr (neutral (steps n ?t0), steps n ?t0)"
       "length (active (steps n ?t0)) \<le> scan (steps n ?t0)" by blast
  have "scan ?t0 = 0" "args ?t0 = []" by (simp_all add: reset_processor_with_def)
  from scan_args_steps [OF this, of n] n show ?thesis by simp
qed

theorem after_execute_witness:
  "execute ''((3+4))*9'' new_trac = Some (Inr (''(3+4)*9'',
     \<lparr>forms = [], active = [], neutral = ''(3+4)*9'', scan = 0, frames = [], args = [],
       stdout = ''((3+4))*9'' @ [CHR 0x0A]\<rparr>))
   \<and> (\<exists>out t'. Inr (''(3+4)*9'',
          \<lparr>forms = [], active = [], neutral = ''(3+4)*9'', scan = 0, frames = [], args = [],
            stdout = ''((3+4))*9'' @ [CHR 0x0A]\<rparr>) = Inr (out, t')
        \<and> active t' = [] \<and> args t' = [] \<and> scan t' = 0 \<and> neutral t' = out)"
proof -
  have e: "execute ''((3+4))*9'' new_trac = Some (Inr (''(3+4)*9'',
     \<lparr>forms = [], active = [], neutral = ''(3+4)*9'', scan = 0, frames = [], args = [],
       stdout = ''((3+4))*9'' @ [CHR 0x0A]\<rparr>))"
    by code_simp
  from after_execute [OF e] e show ?thesis by blast
qed

section \<open>The order of the frames\<close>

lemma frames_inv_mark: "frames_inv t \<Longrightarrow> frames_inv (mark_argument_boundary t)"
proof (cases "frames t = []")
  case True
  assume "frames_inv t"
  with True show ?thesis by (simp add: mark_argument_boundary_def)
next
  case False
  assume inv: "frames_inv t"
  from False obtain fs fr where fs: "frames t = fs @ [fr]"
    by (metis append_butlast_last_id)
  with inv show ?thesis
    by (simp add: mark_argument_boundary_def Let_def frames_inv_def)
qed

lemma frames_inv_push: "frames_inv t \<Longrightarrow> frames_inv (begin_function m t)"
  by (auto simp: frames_inv_def begin_function_def sorted_append list_all_iff)

lemma frames_inv_efe:
  assumes "frames_inv t"
  shows "frames_inv (end_function_and_evaluate t)"
proof (cases "frames t = []")
  case True
  then show ?thesis by (simp add: efe_empty clear_processor_def frames_inv_def)
next
  case False
  then obtain fs fr where fs: "frames t = fs @ [fr]"
    by (metis append_butlast_last_id)
  obtain t' v where ev: "evaluate (hd (call_args t)) (pre_call t) = (t', v)" by force
  from evaluate_same [OF ev] fs
  have t': "frames t' = fs" "neutral t' = take (f_begin fr) (neutral t)"
    by (simp_all add: same_processor_def pre_call_def)
  from assms fs have srt: "sorted (map f_begin fs)"
    and le: "\<forall>f\<in>set fs. f_begin f \<le> f_begin fr"
    and bound: "\<forall>f\<in>set fs. f_begin f \<le> length (neutral t)"
    by (auto simp: frames_inv_def sorted_append list_all_iff)
  have "\<forall>f\<in>set fs. f_begin f \<le> length (take (f_begin fr) (neutral t))"
    using le bound by simp
  then have "frames_inv (deliver (f_mode fr) v t')"
    using srt t' by (auto simp: frames_inv_def deliver_def list_all_iff simp del: length_take)
  then have "frames_inv ((deliver (f_mode fr) v t')\<lparr>args := []\<rparr>)"
    by (simp add: frames_inv_def)
  with ev False fs show ?thesis by (simp add: efe_unfold)
qed

lemma frames_inv_steps: "frames_inv t \<Longrightarrow> frames_inv (steps n t)"
proof (rule steps_preserves [where P = frames_inv])
  show "\<And>t c. frames_inv t \<Longrightarrow> frames_inv (t\<lparr>neutral := neutral t @ [c]\<rparr>)"
    by (auto simp: frames_inv_def list_all_iff)
  show "\<And>t. frames_inv t \<Longrightarrow> frames_inv (delete_active_char t)"
    by (simp add: frames_inv_def delete_active_char_def)
  show "\<And>t. frames_inv (clear_processor t)"
    by (simp add: frames_inv_def clear_processor_def)
qed (simp_all add: frames_inv_mark frames_inv_push frames_inv_efe)

text \<open>
  C9, as stated, fails: the order is not strict. A call that opens where the name of the
  enclosing call should start begins at the same place of \<open>neutral\<close>: after two rounds
  on \<^verbatim>\<open>#(#(cl,A))\<close> both frames begin at 0.
\<close>

theorem frames_equal_begin:
  "map f_begin (frames (steps 2 (reset_processor_with ''#(#(cl,A))'' new_trac))) = [0, 0]
   \<and> \<not> sorted_wrt (<) (map f_begin (frames (steps 2 (reset_processor_with ''#(#(cl,A))'' new_trac))))"
proof -
  have "frames (steps 2 (reset_processor_with ''#(#(cl,A))'' new_trac)) =
      [\<lparr>f_begin = 0, f_mode = Active, argument_slices = [], current_argument_start = 0\<rparr>,
       \<lparr>f_begin = 0, f_mode = Active, argument_slices = [], current_argument_start = 0\<rparr>]"
    by code_simp
  then show ?thesis by simp
qed

text \<open>
  C9, amended: in every state that a run of \<^verbatim>\<open>execute\<close> goes through, the frames are
  in non-decreasing order of \<open>begin\<close>, and no frame begins after the innermost one.
\<close>

theorem frames_begin_order:
  "sorted (map f_begin (frames (steps n (reset_processor_with s t))))
   \<and> (\<forall>f\<in>set (frames (steps n (reset_processor_with s t))).
         f_begin f \<le> f_begin (last (frames (steps n (reset_processor_with s t)))))"
proof -
  let ?u = "steps n (reset_processor_with s t)"
  have "frames_inv (reset_processor_with s t)"
    by (simp add: frames_inv_def reset_processor_with_def)
  then have "frames_inv ?u" by (rule frames_inv_steps)
  then have srt: "sorted (map f_begin (frames ?u))" by (simp add: frames_inv_def)
  have "\<forall>f\<in>set (frames ?u). f_begin f \<le> f_begin (last (frames ?u))"
  proof (cases "frames ?u = []")
    case True
    then show ?thesis by simp
  next
    case False
    then obtain fs fr where fs: "frames ?u = fs @ [fr]"
      by (metis append_butlast_last_id)
    with srt show ?thesis by (auto simp: sorted_append)
  qed
  with srt show ?thesis by simp
qed

theorem frames_begin_order_witness:
  "sorted (map f_begin (frames (steps 5 (reset_processor_with ''#(a#(b#(c'' new_trac))))
   \<and> frames (steps 5 (reset_processor_with ''#(a#(b#(c'' new_trac)) \<noteq> []
   \<and> list_all (\<lambda>f. f_begin f \<le> 2) (frames (steps 5 (reset_processor_with ''#(a#(b#(c'' new_trac)))"
proof -
  have l: "f_begin (last (frames (steps 5 (reset_processor_with ''#(a#(b#(c'' new_trac)))) = 2"
    by code_simp
  have ne: "frames (steps 5 (reset_processor_with ''#(a#(b#(c'' new_trac)) \<noteq> []"
    by code_simp
  from frames_begin_order [of 5 "''#(a#(b#(c''" new_trac] l ne
  show ?thesis by (simp add: list_all_iff)
qed

section \<open>Defining and calling a form\<close>

lemma map_of_dict_set: "map_of (dict_set d k v) k = Some v"
  by (induction d k v rule: dict_set.induct) simp_all

lemma map_of_dict_set_other: "k' \<noteq> k \<Longrightarrow> map_of (dict_set d k v) k' = map_of d k'"
  by (induction d k v rule: dict_set.induct) simp_all

lemma fill_single: "fill as [Lit B] = B"
  by (simp add: fill_def)

lemma evaluate_ds:
  "N \<noteq> [] \<Longrightarrow>
   evaluate ''ds'' (t\<lparr>args := N # B # rest\<rparr>)
     = (t\<lparr>args := N # B # rest, forms := dict_set (forms t) N [Lit B]\<rparr>, [])"
  by (simp add: evaluate_def map_of_builtins_cases ds_def arg_def)

lemma evaluate_cl:
  "map_of (forms t) N = Some parts \<Longrightarrow>
   evaluate ''cl'' (t\<lparr>args := N # as\<rparr>) = (t\<lparr>args := N # as\<rparr>, fill (N # as) parts)"
  by (simp add: evaluate_def map_of_builtins_cases cl_def arg_def)

text \<open>
  C3. For a non-empty name \<open>N\<close> and any body \<open>B\<close>, the call of \<^verbatim>\<open>ds\<close> with the
  arguments \<open>N\<close>, \<open>B\<close> returns the empty string, and the call of \<^verbatim>\<open>cl\<close> with the
  argument \<open>N\<close> that follows it returns exactly \<open>B\<close> (and changes nothing).
\<close>

theorem ds_then_cl:
  assumes "N \<noteq> []"
  shows "\<exists>t1. evaluate ''ds'' (t\<lparr>args := [N, B]\<rparr>) = (t1, [])
           \<and> evaluate ''cl'' (t1\<lparr>args := [N]\<rparr>) = (t1\<lparr>args := [N]\<rparr>, B)"
proof -
  let ?t1 = "t\<lparr>args := [N, B], forms := dict_set (forms t) N [Lit B]\<rparr>"
  have "evaluate ''ds'' (t\<lparr>args := [N, B]\<rparr>) = (?t1, [])"
    using assms by (rule evaluate_ds)
  moreover have "map_of (forms ?t1) N = Some [Lit B]" by (simp add: map_of_dict_set)
  from evaluate_cl [OF this, of "[]"]
  have "evaluate ''cl'' (?t1\<lparr>args := [N]\<rparr>) = (?t1\<lparr>args := [N]\<rparr>, B)"
    by (simp add: fill_single)
  ultimately show ?thesis by blast
qed

theorem ds_then_cl_witness:
  "''AA'' \<noteq> [] \<and>
   (\<exists>t1. evaluate ''ds'' (new_trac\<lparr>args := [''AA'', ''#(cl,BB),x'']\<rparr>) = (t1, [])
      \<and> evaluate ''cl'' (t1\<lparr>args := [''AA'']\<rparr>) = (t1\<lparr>args := [''AA'']\<rparr>, ''#(cl,BB),x''))"
  using ds_then_cl [where N = "''AA''" and t = new_trac and B = "''#(cl,BB),x''"] by simp

section \<open>Call termination and result delivery\<close>

lemma body_close_paren:
  "scan t < length (active t) \<Longrightarrow> active t ! scan t = CHR '')'' \<Longrightarrow>
   body t = Inr (end_function_and_evaluate (delete_active_char t), False)"
  by (simp add: body_def skip_chars_def)

text \<open>
  C1. When the character under the cursor is \<^verbatim>\<open>)\<close> and a frame is open, the round
  deletes the \<^verbatim>\<open>)\<close>, pops the innermost frame, takes the arguments \<open>call_args\<close> from
  the slices of \<open>neutral\<close>, cuts \<open>neutral\<close> back to the frame's \<open>begin\<close>, and runs the
  primitive named by the first argument on the others. With \<open>V\<close> the value of that call:
  an active frame leaves \<open>V\<close> followed by the rest of the active input in \<open>active\<close>
  with \<open>scan = 0\<close>, so that scanning goes on at the first character of \<open>V\<close>; a neutral
  frame appends \<open>V\<close> to \<open>neutral\<close> and leaves the active input and \<open>scan\<close> alone.
  In both cases \<open>args\<close> is empty afterwards and the loop goes on.
\<close>

theorem close_paren_delivers:
  assumes inrange: "scan t < length (active t)"
    and ch: "active t ! scan t = CHR '')''"
    and fr: "frames t \<noteq> []"
    and ev: "evaluate (hd (call_args t))
               (t\<lparr>active := del_at (scan t) (active t),
                  frames := butlast (frames t),
                  neutral := take (f_begin (last (frames t))) (neutral t),
                  args := drop 1 (call_args t)\<rparr>) = (t', V)"
  shows "\<exists>u. body t = Inr (u, False)
     \<and> forms u = forms t' \<and> stdout u = stdout t'
     \<and> frames u = butlast (frames t) \<and> args u = []
     \<and> (f_mode (last (frames t)) = Active \<longrightarrow>
          active u = V @ drop (Suc (scan t)) (active t) \<and> scan u = 0
          \<and> neutral u = take (f_begin (last (frames t))) (neutral t))
     \<and> (f_mode (last (frames t)) = Neutral \<longrightarrow>
          neutral u = take (f_begin (last (frames t))) (neutral t) @ V
          \<and> active u = del_at (scan t) (active t) \<and> scan u = scan t)"
proof -
  let ?d = "delete_active_char t"
  have d: "?d = t\<lparr>active := del_at (scan t) (active t)\<rparr>"
    using inrange by (simp add: delete_active_char_def)
  have ca: "call_args ?d = call_args t" by (simp add: d call_args_def)
  have pc: "pre_call ?d = t\<lparr>active := del_at (scan t) (active t),
                  frames := butlast (frames t),
                  neutral := take (f_begin (last (frames t))) (neutral t),
                  args := drop 1 (call_args t)\<rparr>"
    by (simp add: d pre_call_def ca [unfolded d])
  from ev have ev': "evaluate (hd (call_args ?d)) (pre_call ?d) = (t', V)"
    by (simp only: ca pc)
  from evaluate_same [OF ev']
  have same: "active t' = del_at (scan t) (active t)" "scan t' = scan t"
    "frames t' = butlast (frames t)"
    "neutral t' = take (f_begin (last (frames t))) (neutral t)"
    by (simp_all add: same_processor_def pc)
  have fd: "frames ?d \<noteq> []" "last (frames ?d) = last (frames t)" using fr by (simp_all add: d)
  have efe: "end_function_and_evaluate ?d = (deliver (f_mode (last (frames t))) V t')\<lparr>args := []\<rparr>"
    by (simp add: efe_unfold [OF fd(1)] ev' fd(2))
  have dr: "drop (scan t) (del_at (scan t) (active t)) = drop (Suc (scan t)) (active t)"
    using inrange by (simp add: del_at_def)
  have m: "f_mode (last (frames t)) \<noteq> Neutral \<longleftrightarrow> f_mode (last (frames t)) = Active"
    by (cases "f_mode (last (frames t))") simp_all
  show ?thesis
    using body_close_paren [OF inrange ch] efe same dr
    by (cases "f_mode (last (frames t))") (simp_all add: deliver_def)
qed

theorem close_paren_delivers_witness:
  "\<exists>u. body \<lparr>forms = [], active = '')x'', neutral = ''ad34'', scan = 0,
              frames = [\<lparr>f_begin = 0, f_mode = Active, argument_slices = [(0, 2), (2, 3)],
                         current_argument_start = 3\<rparr>],
              args = [], stdout = []\<rparr> = Inr (u, False)
     \<and> active u = ''7x'' \<and> scan u = 0 \<and> neutral u = [] \<and> frames u = [] \<and> args u = []"
proof -
  let ?t = "\<lparr>forms = [], active = '')x'', neutral = ''ad34'', scan = 0,
              frames = [\<lparr>f_begin = 0, f_mode = Active, argument_slices = [(0, 2), (2, 3)],
                         current_argument_start = 3\<rparr>],
              args = [], stdout = []\<rparr>"
  let ?t' = "\<lparr>forms = [], active = ''x'', neutral = [], scan = 0, frames = [],
               args = [''3'', ''4''], stdout = []\<rparr>"
  have inrange: "scan ?t < length (active ?t)" by simp
  have ch: "active ?t ! scan ?t = CHR '')''" by simp
  have fr: "frames ?t \<noteq> []" by simp
  have ev: "evaluate (hd (call_args ?t))
               (?t\<lparr>active := del_at (scan ?t) (active ?t),
                  frames := butlast (frames ?t),
                  neutral := take (f_begin (last (frames ?t))) (neutral ?t),
                  args := drop 1 (call_args ?t)\<rparr>) = (?t', ''7'')"
    by code_simp
  from close_paren_delivers [OF inrange ch fr ev] show ?thesis by auto
qed

section \<open>Record abort\<close>

lemma all_le_Suc: "(\<forall>k\<le>Suc n. P k) \<longleftrightarrow> P 0 \<and> (\<forall>k\<le>n. P (Suc k))"
proof
  assume a: "\<forall>k\<le>Suc n. P k"
  then show "P 0 \<and> (\<forall>k\<le>n. P (Suc k))" by auto
next
  assume a: "P 0 \<and> (\<forall>k\<le>n. P (Suc k))"
  show "\<forall>k\<le>Suc n. P k"
  proof (intro allI impI)
    fix k assume "k \<le> Suc n"
    with a show "P k" by (cases k) auto
  qed
qed

lemma drop_del_at:
  assumes "drop i xs = c # cs"
  shows "i < length xs" "xs ! i = c" "del_at i xs = take i xs @ cs"
    "drop i (del_at i xs) = cs" "take i (del_at i xs) = take i xs"
proof -
  show i: "i < length xs" using assms by (cases "i < length xs") simp_all
  from assms show "xs ! i = c" by (metis nth_via_drop)
  have "drop (Suc i) xs = cs" using assms by (metis drop_Suc list.sel(3) tl_drop)
  then show d: "del_at i xs = take i xs @ cs" by (simp add: del_at_def)
  from i show "drop i (del_at i xs) = cs" by (simp add: d)
  from i show "take i (del_at i xs) = take i xs" by (simp add: d)
qed

lemma cbp_loop_unclosed:
  assumes "drop i (active t) = xs" and "1 \<le> d"
  shows "snd (cbp_loop d i t) = False \<longleftrightarrow>
           (\<forall>k\<le>length xs. int (count_list (take k xs) (CHR '')''))
                             < d + int (count_list (take k xs) (CHR ''('')))"
    and "snd (cbp_loop d i t) = False \<Longrightarrow>
           fst (cbp_loop d i t) = t\<lparr>neutral := neutral t @ xs, active := take i (active t)\<rparr>"
  using assms
proof (induction xs arbitrary: d t)
  case Nil
  {
    case 1
    then show ?case by (simp add: cbp_loop_end)
  next
    case 2
    then show ?case by (simp add: cbp_loop_end)
  }
next
  case (Cons c cs)
  {
    case 1
    note dr = drop_del_at [OF 1(1)]
    show ?case
    proof (cases "c = CHR ''(''")
      case True
      let ?t' = "t\<lparr>neutral := neutral t @ [CHR ''(''], active := del_at i (active t)\<rparr>"
      have "drop i (active ?t') = cs" using dr by simp
      from Cons.IH(1) [OF this, of "d + 1"] 1(2) True dr
      show ?thesis by (simp add: cbp_loop_open all_le_Suc add.assoc)
    next
      case no: False
      show ?thesis
      proof (cases "c = CHR '')''")
        case True
        show ?thesis
        proof (cases "d = 1")
          case d1: True
          have "\<not> (\<forall>k\<le>length (c # cs). int (count_list (take k (c # cs)) (CHR '')''))
                  < d + int (count_list (take k (c # cs)) (CHR ''('')))"
            using True d1 by (auto intro!: exI [of _ 1])
          with True d1 dr show ?thesis by (simp add: cbp_loop_close_last)
        next
          case False
          let ?t' = "t\<lparr>neutral := neutral t @ [CHR '')''], active := del_at i (active t)\<rparr>"
          have "drop i (active ?t') = cs" using dr by simp
          from Cons.IH(1) [OF this, of "d - 1"] 1(2) True False dr
          show ?thesis by (simp add: cbp_loop_close all_le_Suc) (simp add: algebra_simps)?
        qed
      next
        case False
        let ?t' = "t\<lparr>neutral := neutral t @ [c], active := del_at i (active t)\<rparr>"
        have "drop i (active ?t') = cs" using dr by simp
        from Cons.IH(1) [OF this, of d] 1(2) no False dr
        show ?thesis by (simp add: cbp_loop_other all_le_Suc)
      qed
    qed
  next
    case 2
    note dr = drop_del_at [OF 2(2)]
    show ?case
    proof (cases "c = CHR ''(''")
      case True
      let ?t' = "t\<lparr>neutral := neutral t @ [CHR ''(''], active := del_at i (active t)\<rparr>"
      have "drop i (active ?t') = cs" using dr by simp
      from Cons.IH(2) [OF _ this, of "d + 1"] 2(1,3) True dr
      show ?thesis by (simp add: cbp_loop_open)
    next
      case no: False
      show ?thesis
      proof (cases "c = CHR '')''")
        case True
        show ?thesis
        proof (cases "d = 1")
          case d1: True
          with True dr 2(1) show ?thesis by (simp add: cbp_loop_close_last)
        next
          case False
          let ?t' = "t\<lparr>neutral := neutral t @ [CHR '')''], active := del_at i (active t)\<rparr>"
          have "drop i (active ?t') = cs" using dr by simp
          from Cons.IH(2) [OF _ this, of "d - 1"] 2(1,3) True False dr
          show ?thesis by (simp add: cbp_loop_close)
        qed
      next
        case False
        let ?t' = "t\<lparr>neutral := neutral t @ [c], active := del_at i (active t)\<rparr>"
        have "drop i (active ?t') = cs" using dr by simp
        from Cons.IH(2) [OF _ this, of d] 2(1,3) no False dr
        show ?thesis by (simp add: cbp_loop_other)
      qed
    qed
  }
qed

lemma no_matching_close_iff:
  "no_matching_close xs \<longleftrightarrow>
     (\<forall>k\<le>length xs. int (count_list (take k xs) (CHR '')''))
                       < 1 + int (count_list (take k xs) (CHR ''('')))"
proof -
  have mem: "\<And>k. k \<in> set [0..<Suc (length xs)] \<longleftrightarrow> k \<le> length xs"
    by (simp only: set_upt atLeastLessThan_iff less_Suc_eq_le) simp
  have ar: "\<And>a b :: nat. a \<le> b \<longleftrightarrow> int a < 1 + int b" by linarith
  show ?thesis
    unfolding no_matching_close_def list_all_iff Ball_def mem ar ..
qed

lemma clear_processor_cong:
  "forms u = forms t \<Longrightarrow> stdout u = stdout t \<Longrightarrow> clear_processor u = clear_processor t"
  by (simp add: clear_processor_def)

lemma body_open_paren:
  "scan t < length (active t) \<Longrightarrow> active t ! scan t = CHR ''('' \<Longrightarrow>
   consume_balanced_parentheses_into_neutral t = (t', ok) \<Longrightarrow>
   body t = Inr (if ok then t' else clear_processor t', \<not> ok)"
  by (simp add: body_def skip_chars_def)

lemma body_open_unclosed:
  assumes inrange: "scan t < length (active t)"
    and ch: "active t ! scan t = CHR ''(''"
    and un: "no_matching_close (drop (Suc (scan t)) (active t))"
  shows "body t = Inr (clear_processor t, True)"
proof -
  let ?d = "delete_active_char t"
  have d: "?d = t\<lparr>active := del_at (scan t) (active t)\<rparr>"
    using inrange by (simp add: delete_active_char_def)
  have dr: "drop (scan ?d) (active ?d) = drop (Suc (scan t)) (active t)"
    using inrange by (simp add: d del_at_def)
  from un have all: "\<forall>k\<le>length (drop (Suc (scan t)) (active t)).
      int (count_list (take k (drop (Suc (scan t)) (active t))) (CHR '')''))
        < 1 + int (count_list (take k (drop (Suc (scan t)) (active t))) (CHR ''(''))"
    by (simp only: no_matching_close_iff)
  obtain t' ok where c: "cbp_loop 1 (scan ?d) ?d = (t', ok)" by force
  have "snd (cbp_loop 1 (scan ?d) ?d) = False"
    using cbp_loop_unclosed(1) [OF dr, of 1] all by blast
  with c have ok: "ok = False" by simp
  from cbp_loop_unclosed(2) [OF dr, of 1] c ok
  have "t' = ?d\<lparr>neutral := neutral ?d @ drop (Suc (scan t)) (active t),
                  active := take (scan ?d) (active ?d)\<rparr>"
    by simp
  then have "forms t' = forms t" "stdout t' = stdout t" by (simp_all add: d)
  then have cl: "clear_processor t' = clear_processor t" by (rule clear_processor_cong)
  have "consume_balanced_parentheses_into_neutral t = (t', False)"
    using c ok by (simp add: consume_balanced_parentheses_into_neutral_def)
  from body_open_paren [OF inrange ch this] cl show ?thesis by simp
qed

lemma body_stray_close:
  assumes inrange: "scan t < length (active t)"
    and ch: "active t ! scan t = CHR '')''"
    and fr: "frames t = []"
  shows "body t = Inr (clear_processor t, False)"
proof -
  have "end_function_and_evaluate (delete_active_char t) = clear_processor t"
    using fr by (simp add: efe_empty delete_active_char_def clear_processor_def)
  with body_close_paren [OF inrange ch] show ?thesis by simp
qed

lemma loop_aborts:
  assumes "aborts t"
  shows "loop t = Some (Inr (clear_processor t))"
proof -
  from assms have inrange: "scan t < length (active t)" by (simp add: aborts_def)
  show ?thesis
  proof (cases "active t ! scan t = CHR '')''")
    case True
    with assms have "frames t = []" by (simp add: aborts_def)
    from body_stray_close [OF inrange True this]
    have "loop t = loop (clear_processor t)" by (rule loop_step [OF inrange])
    also have "\<dots> = Some (Inr (clear_processor t))"
      by (rule loop_halted) (simp add: clear_processor_def)
    finally show ?thesis .
  next
    case False
    with assms have "active t ! scan t = CHR ''(''"
      and "no_matching_close (drop (Suc (scan t)) (active t))"
      by (simp_all add: aborts_def)
    from body_open_unclosed [OF inrange this] show ?thesis by (rule loop_break [OF inrange])
  qed
qed

text \<open>
  C5. If a run of \<^verbatim>\<open>execute\<close> reaches a round in which the record aborts (a stray
  \<^verbatim>\<open>)\<close>, or a \<^verbatim>\<open>(\<close> that nothing closes), then \<^verbatim>\<open>execute\<close> returns the empty
  string, and the interpreter it leaves is the one of that round with \<open>active\<close>,
  \<open>neutral\<close>, \<open>frames\<close> and \<open>args\<close> emptied: the form store is the one of the moment
  of the abort.
\<close>

theorem record_abort:
  assumes "aborts (steps n (reset_processor_with s (t\<lparr>stdout := stdout t @ s @ [CHR 0x0A]\<rparr>)))"
  shows "execute s t = Some (Inr ([],
           (steps n (reset_processor_with s (t\<lparr>stdout := stdout t @ s @ [CHR 0x0A]\<rparr>)))
             \<lparr>neutral := [], active := [], scan := 0, frames := [], args := []\<rparr>))"
proof -
  let ?t0 = "reset_processor_with s (t\<lparr>stdout := stdout t @ s @ [CHR 0x0A]\<rparr>)"
  have "loop ?t0 = loop (steps n ?t0)" by (simp add: loop_steps)
  also have "\<dots> = Some (Inr (clear_processor (steps n ?t0)))" by (rule loop_aborts [OF assms])
  finally show ?thesis by (simp add: execute_def clear_processor_def)
qed

theorem record_abort_witness:
  "aborts (steps 8 (reset_processor_with ''#(ds,A,x))y(''
             (new_trac\<lparr>stdout := stdout new_trac @ ''#(ds,A,x))y('' @ [CHR 0x0A]\<rparr>)))
   \<and> execute ''#(ds,A,x))y('' new_trac = Some (Inr ([],
        \<lparr>forms = [(''A'', [Lit ''x''])], active = [], neutral = [], scan = 0, frames = [],
          args = [], stdout = ''#(ds,A,x))y('' @ [CHR 0x0A]\<rparr>))"
proof -
  let ?u = "steps 8 (reset_processor_with ''#(ds,A,x))y(''
             (new_trac\<lparr>stdout := stdout new_trac @ ''#(ds,A,x))y('' @ [CHR 0x0A]\<rparr>))"
  have st: "?u = \<lparr>forms = [(''A'', [Lit ''x''])], active = '')y('', neutral = [], scan = 0,
                  frames = [], args = [], stdout = ''#(ds,A,x))y('' @ [CHR 0x0A]\<rparr>"
    by code_simp
  have ab: "aborts ?u" unfolding st by (simp add: aborts_def)
  have "execute ''#(ds,A,x))y('' new_trac
          = Some (Inr ([], ?u\<lparr>neutral := [], active := [], scan := 0, frames := [], args := []\<rparr>))"
    by (rule record_abort [OF ab])
  then have "execute ''#(ds,A,x))y('' new_trac = Some (Inr ([],
        \<lparr>forms = [(''A'', [Lit ''x''])], active = [], neutral = [], scan = 0, frames = [],
          args = [], stdout = ''#(ds,A,x))y('' @ [CHR 0x0A]\<rparr>))"
    unfolding st by simp
  with ab show ?thesis by blast
qed

section \<open>Runs that never return\<close>

lemma steps_halted: "length (active t) \<le> scan t \<Longrightarrow> steps n t = t"
  by (cases n) simp_all

lemma steps_add: "steps (m + n) t = steps n (steps m t)"
proof (induction m arbitrary: t)
  case 0
  show ?case by simp
next
  case (Suc m)
  show ?case
  proof (cases "length (active t) \<le> scan t")
    case True
    then show ?thesis by (simp add: steps_halted)
  next
    case False
    then have inrange: "scan t < length (active t)" by simp
    from body_total [OF inrange] obtain t' brk where b: "body t = Inr (t', brk)" by blast
    show ?thesis
    proof (cases brk)
      case True
      with b body_break [of t t'] have "active t' = []" by (auto simp: clear_processor_def)
      then have "steps n t' = t'" by (simp add: steps_halted)
      with True b False show ?thesis by simp
    next
      case nb: False
      with b False Suc.IH [of t'] show ?thesis by simp
    qed
  qed
qed

lemma steps_cycle:
  assumes "steps p c = c"
  shows "steps (p * q + r) c = steps r c"
proof (induction q)
  case 0
  show ?case by simp
next
  case (Suc q)
  have "steps (p * Suc q + r) c = steps (p + (p * q + r)) c" by (simp add: algebra_simps)
  also have "\<dots> = steps (p * q + r) (steps p c)" by (rule steps_add)
  also have "\<dots> = steps r c" by (simp add: assms Suc)
  finally show ?case .
qed

lemma loop_cycle_None:
  assumes cyc: "steps p c = c" and pos: "0 < p"
    and run: "\<And>r. r < p \<Longrightarrow> scan (steps r c) < length (active (steps r c))"
  shows "loop c = None"
proof (cases "loop c")
  case None
  then show ?thesis .
next
  case (Some res)
  from loop_Some_steps [OF Some] obtain n where
    h: "length (active (steps n c)) \<le> scan (steps n c)" by blast
  have "steps n c = steps (p * (n div p) + n mod p) c" by simp
  also have "\<dots> = steps (n mod p) c" by (rule steps_cycle [OF cyc])
  finally have "steps n c = steps (n mod p) c" .
  moreover from pos have "n mod p < p" by simp
  ultimately show ?thesis using run [of "n mod p"] h by simp
qed

section \<open>Local faults\<close>

text \<open>
  C4, as stated, fails twice. \<^verbatim>\<open>execute\<close> does not return for every input: on a fresh
  interpreter, \<^verbatim>\<open>#(ds,L,(#(cl,L)))#(cl,L)\<close> defines a form that calls itself and then
  calls it, and the loop never ends. And a call with a missing positional argument does
  not produce the empty string: \<^verbatim>\<open>#(ad,5)\<close> returns \<^verbatim>\<open>5\<close>.
\<close>

theorem execute_not_total:
  "execute ''#(ds,L,(#(cl,L)))#(cl,L)'' new_trac = None
   \<and> execute ''#(ad,5)'' new_trac = Some (Inr (''5'',
        \<lparr>forms = [], active = [], neutral = ''5'', scan = 0, frames = [], args = [],
          stdout = ''#(ad,5)'' @ [CHR 0x0A]\<rparr>))"
proof -
  let ?src = "''#(ds,L,(#(cl,L)))#(cl,L)''"
  let ?t0 = "reset_processor_with ?src (new_trac\<lparr>stdout := stdout new_trac @ ?src @ [CHR 0x0A]\<rparr>)"
  let ?c = "\<lparr>forms = [(''L'', [Lit ''#(cl,L)''])], active = ''#(cl,L)'', neutral = [], scan = 0,
             frames = [], args = [], stdout = ?src @ [CHR 0x0A]\<rparr>"
  have start: "steps 8 ?t0 = ?c" by code_simp
  have cyc: "steps 6 ?c = ?c" by code_simp
  have run: "list_all (\<lambda>r. scan (steps r ?c) < length (active (steps r ?c))) [0..<6]"
    by code_simp
  have "loop ?c = None"
  proof (rule loop_cycle_None [OF cyc])
    show "0 < (6::nat)" by simp
    fix r :: nat assume "r < 6"
    then have "r \<in> set [0..<6]" by simp
    with run show "scan (steps r ?c) < length (active (steps r ?c))"
      unfolding list_all_iff by blast
  qed
  moreover have "loop ?t0 = loop (steps 8 ?t0)" by (simp only: loop_steps)
  ultimately have "loop ?t0 = None" by (simp only: start)
  then have "execute ?src new_trac = None" by (simp add: execute_def)
  moreover have "execute ''#(ad,5)'' new_trac = Some (Inr (''5'',
        \<lparr>forms = [], active = [], neutral = ''5'', scan = 0, frames = [], args = [],
          stdout = ''#(ad,5)'' @ [CHR 0x0A]\<rparr>))"
    by code_simp
  ultimately show ?thesis by blast
qed

lemma execute_no_raise: "execute s t \<noteq> Some (Inl e)"
proof
  assume "execute s t = Some (Inl e)"
  from execute_Some [OF this] show False by blast
qed

lemma dd_unknown:
  assumes "\<forall>i<length (args u). map_of (forms u) (arg u i) = None"
  shows "dd u = (u, Inr [])"
proof -
  have "n \<le> length (args u) \<Longrightarrow> foldl dd_step u [0..<n] = u" for n
  proof (induction n)
    case 0
    show ?case by simp
  next
    case (Suc n)
    with assms show ?case by (simp add: dd_step_def)
  qed
  then show ?thesis by (simp add: dd_def)
qed

lemma dd_value: "snd (evaluate ''dd'' u) = []"
  by (simp add: evaluate_def map_of_builtins_cases dd_def)

lemma arith_fail:
  "int_arg u 0 = None \<or> int_arg u 1 = None \<Longrightarrow> arith f u = (u, Inl ValueError)"
  by (auto simp: arith_def split: option.splits)

text \<open>
  C4, amended. \<^verbatim>\<open>execute\<close> never raises. In the evaluation step of a call, an unknown
  primitive name, a handler that raises, \<^verbatim>\<open>cl\<close> or \<^verbatim>\<open>ss\<close> of an unknown form,
  \<^verbatim>\<open>dd\<close> (whatever forms it names; naming unknown forms only, it changes nothing),
  \<^verbatim>\<open>ds\<close> with an empty name, and \<^verbatim>\<open>ad\<close>, \<^verbatim>\<open>su\<close>, \<^verbatim>\<open>ml\<close> with an argument that
  \<^verbatim>\<open>int\<close> does not parse all give the empty string (and, the raising handler and \<^verbatim>\<open>dd\<close>
  of a known form apart, leave the interpreter as it was). A missing positional argument
  reads as the empty string. The round that closes a call neither raises nor leaves the
  loop.
\<close>

theorem local_faults_give_empty:
  "execute s t \<noteq> Some (Inl e)
   \<and> (map_of builtins name = None \<longrightarrow> evaluate name u = (u, []))
   \<and> (map_of builtins name = Some h \<and> h u = (u', Inl e) \<longrightarrow> evaluate name u = (u', []))
   \<and> (map_of (forms u) (arg u 0) = None \<longrightarrow>
        evaluate ''cl'' u = (u, []) \<and> evaluate ''ss'' u = (u, []))
   \<and> snd (evaluate ''dd'' u) = []
   \<and> ((\<forall>i<length (args u). map_of (forms u) (arg u i) = None) \<longrightarrow> evaluate ''dd'' u = (u, []))
   \<and> (arg u 0 = [] \<longrightarrow> evaluate ''ds'' u = (u, []))
   \<and> (length (args u) \<le> i \<longrightarrow> arg u i = [])
   \<and> (int_arg u 0 = None \<or> int_arg u 1 = None \<longrightarrow>
        evaluate ''ad'' u = (u, []) \<and> evaluate ''su'' u = (u, []) \<and> evaluate ''ml'' u = (u, []))
   \<and> (scan u < length (active u) \<and> active u ! scan u = CHR '')'' \<longrightarrow>
        (\<exists>v. body u = Inr (v, False)))"
proof (intro conjI impI)
  show "execute s t \<noteq> Some (Inl e)" by (rule execute_no_raise)
next
  assume "map_of builtins name = None"
  then show "evaluate name u = (u, [])" by (simp add: evaluate_def)
next
  assume "map_of builtins name = Some h \<and> h u = (u', Inl e)"
  then show "evaluate name u = (u', [])" by (simp add: evaluate_def)
next
  assume "map_of (forms u) (arg u 0) = None"
  then show "evaluate ''cl'' u = (u, [])"
    by (simp add: evaluate_def map_of_builtins_cases cl_def)
next
  assume "map_of (forms u) (arg u 0) = None"
  then show "evaluate ''ss'' u = (u, [])"
    by (simp add: evaluate_def map_of_builtins_cases ss_def)
next
  show "snd (evaluate ''dd'' u) = []" by (rule dd_value)
next
  assume "\<forall>i<length (args u). map_of (forms u) (arg u i) = None"
  then show "evaluate ''dd'' u = (u, [])"
    by (simp add: evaluate_def map_of_builtins_cases dd_unknown)
next
  assume "arg u 0 = []"
  then show "evaluate ''ds'' u = (u, [])"
    by (simp add: evaluate_def map_of_builtins_cases ds_def)
next
  assume "length (args u) \<le> i"
  then show "arg u i = []" by (simp add: arg_def)
next
  assume a: "int_arg u 0 = None \<or> int_arg u 1 = None"
  show "evaluate ''ad'' u = (u, [])"
    by (simp add: evaluate_def map_of_builtins_cases ad_def arith_fail [OF a])
  show "evaluate ''su'' u = (u, [])"
    by (simp add: evaluate_def map_of_builtins_cases su_def arith_fail [OF a])
  show "evaluate ''ml'' u = (u, [])"
    by (simp add: evaluate_def map_of_builtins_cases ml_def arith_fail [OF a])
next
  assume "scan u < length (active u) \<and> active u ! scan u = CHR '')''"
  then show "\<exists>v. body u = Inr (v, False)" by (simp add: body_close_paren)
qed

theorem local_faults_give_empty_witness:
  "execute ''#(zz,1)'' new_trac \<noteq> Some (Inl ValueError)
   \<and> evaluate ''zz'' (new_trac\<lparr>active := '')'', neutral := ''zz'', args := [[], [CHR 0x1C, CHR ''5'']],
         frames := [\<lparr>f_begin = 0, f_mode = Active, argument_slices = [],
                      current_argument_start = 0\<rparr>]\<rparr>)
       = (new_trac\<lparr>active := '')'', neutral := ''zz'', args := [[], [CHR 0x1C, CHR ''5'']],
         frames := [\<lparr>f_begin = 0, f_mode = Active, argument_slices = [],
                      current_argument_start = 0\<rparr>]\<rparr>, [])
   \<and> evaluate ''ml'' (new_trac\<lparr>active := '')'', neutral := ''zz'', args := [[], [CHR 0x1C, CHR ''5'']],
         frames := [\<lparr>f_begin = 0, f_mode = Active, argument_slices = [],
                      current_argument_start = 0\<rparr>]\<rparr>)
       = (new_trac\<lparr>active := '')'', neutral := ''zz'', args := [[], [CHR 0x1C, CHR ''5'']],
         frames := [\<lparr>f_begin = 0, f_mode = Active, argument_slices = [],
                      current_argument_start = 0\<rparr>]\<rparr>, [])
   \<and> evaluate ''cl'' (new_trac\<lparr>active := '')'', neutral := ''zz'', args := [[], [CHR 0x1C, CHR ''5'']],
         frames := [\<lparr>f_begin = 0, f_mode = Active, argument_slices = [],
                      current_argument_start = 0\<rparr>]\<rparr>)
       = (new_trac\<lparr>active := '')'', neutral := ''zz'', args := [[], [CHR 0x1C, CHR ''5'']],
         frames := [\<lparr>f_begin = 0, f_mode = Active, argument_slices = [],
                      current_argument_start = 0\<rparr>]\<rparr>, [])
   \<and> evaluate ''dd'' (new_trac\<lparr>active := '')'', neutral := ''zz'', args := [[], [CHR 0x1C, CHR ''5'']],
         frames := [\<lparr>f_begin = 0, f_mode = Active, argument_slices = [],
                      current_argument_start = 0\<rparr>]\<rparr>)
       = (new_trac\<lparr>active := '')'', neutral := ''zz'', args := [[], [CHR 0x1C, CHR ''5'']],
         frames := [\<lparr>f_begin = 0, f_mode = Active, argument_slices = [],
                      current_argument_start = 0\<rparr>]\<rparr>, [])
   \<and> evaluate ''ds'' (new_trac\<lparr>active := '')'', neutral := ''zz'', args := [[], [CHR 0x1C, CHR ''5'']],
         frames := [\<lparr>f_begin = 0, f_mode = Active, argument_slices = [],
                      current_argument_start = 0\<rparr>]\<rparr>)
       = (new_trac\<lparr>active := '')'', neutral := ''zz'', args := [[], [CHR 0x1C, CHR ''5'']],
         frames := [\<lparr>f_begin = 0, f_mode = Active, argument_slices = [],
                      current_argument_start = 0\<rparr>]\<rparr>, [])
   \<and> arg (new_trac\<lparr>active := '')'', neutral := ''zz'', args := [[], [CHR 0x1C, CHR ''5'']],
         frames := [\<lparr>f_begin = 0, f_mode = Active, argument_slices = [],
                      current_argument_start = 0\<rparr>]\<rparr>) 2 = []
   \<and> (\<exists>v. body (new_trac\<lparr>active := '')'', neutral := ''zz'', args := [[], [CHR 0x1C, CHR ''5'']],
         frames := [\<lparr>f_begin = 0, f_mode = Active, argument_slices = [],
                      current_argument_start = 0\<rparr>]\<rparr>) = Inr (v, False))
   \<and> evaluate ''ad'' (new_trac\<lparr>active := '')'', neutral := ''zz'', args := [[], [CHR 0x1C, CHR ''5'']],
         frames := [\<lparr>f_begin = 0, f_mode = Active, argument_slices = [],
                      current_argument_start = 0\<rparr>]\<rparr>)
       = (new_trac\<lparr>active := '')'', neutral := ''zz'', args := [[], [CHR 0x1C, CHR ''5'']],
         frames := [\<lparr>f_begin = 0, f_mode = Active, argument_slices = [],
                      current_argument_start = 0\<rparr>]\<rparr>, [])"
proof -
  let ?u = "new_trac\<lparr>active := '')'', neutral := ''zz'', args := [[], [CHR 0x1C, CHR ''5'']],
         frames := [\<lparr>f_begin = 0, f_mode = Active, argument_slices = [],
                      current_argument_start = 0\<rparr>]\<rparr>"
  have unknown: "map_of builtins ''zz'' = None" by (simp add: builtins_def)
  have noform: "map_of (forms ?u) (arg ?u 0) = None" by (simp add: new_trac_def)
  have noforms: "\<forall>i<length (args ?u). map_of (forms ?u) (arg ?u i) = None"
    by (simp add: new_trac_def)
  have noname: "arg ?u 0 = []" by (simp add: arg_def)
  have missing: "length (args ?u) \<le> 2" by simp
  have "int_arg ?u 1 = None" by code_simp
  then have noparse: "int_arg ?u 0 = None \<or> int_arg ?u 1 = None" ..
  have close: "scan ?u < length (active ?u) \<and> active ?u ! scan ?u = CHR '')''"
    by (simp add: new_trac_def)
  have raises: "map_of builtins ''ad'' = Some ad \<and> ad ?u = (?u, Inl ValueError)"
    by (simp only: map_of_builtins_cases ad_def arith_fail [OF noparse]) simp
  have first: "execute ''#(zz,1)'' new_trac \<noteq> Some (Inl ValueError)
      \<and> evaluate ''zz'' ?u = (?u, []) \<and> evaluate ''ml'' ?u = (?u, [])
      \<and> evaluate ''cl'' ?u = (?u, []) \<and> evaluate ''dd'' ?u = (?u, [])
      \<and> evaluate ''ds'' ?u = (?u, []) \<and> arg ?u 2 = []
      \<and> (\<exists>v. body ?u = Inr (v, False))"
    using local_faults_give_empty
         [where s = "''#(zz,1)''" and t = new_trac and e = ValueError and name = "''zz''"
            and u = ?u and i = 2]
      unknown noform noforms noname missing noparse close
    by blast
  have "evaluate ''ad'' ?u = (?u, [])"
    using local_faults_give_empty
         [where name = "''ad''" and h = ad and u = ?u and u' = ?u and e = ValueError]
      raises
    by blast
  with first show ?thesis by blast
qed

section \<open>Rounds of the loop, by the character under the cursor\<close>

lemma del_at_0: "del_at 0 (c # r) = r"
  by (simp add: del_at_def)

lemma loop_round:
  "scan t = 0 \<Longrightarrow> active t = c # r \<Longrightarrow> body t = Inr (t', False) \<Longrightarrow> loop t = loop t'"
  by (rule loop_step) simp_all


lemma body_comma:
  "scan t = 0 \<Longrightarrow> active t = CHR '','' # r \<Longrightarrow>
   body t = Inr (mark_argument_boundary (t\<lparr>active := r\<rparr>), False)"
  by (simp add: body_def delete_active_char_def del_at_0 skip_chars_def)

lemma body_open_active:
  "scan t = 0 \<Longrightarrow> active t = CHR ''#'' # CHR ''('' # r \<Longrightarrow>
   body t = Inr (begin_function Active (t\<lparr>active := r\<rparr>), False)"
  by (simp add: body_def delete_active_char_def del_at_0 skip_chars_def peek_def)

lemma body_open_neutral:
  "scan t = 0 \<Longrightarrow> active t = CHR ''#'' # CHR ''#'' # CHR ''('' # r \<Longrightarrow>
   body t = Inr (begin_function Neutral (t\<lparr>active := r\<rparr>), False)"
  by (simp add: body_def delete_active_char_def del_at_0 skip_chars_def peek_def)


lemma peek_1: "scan t = 0 \<Longrightarrow> active t = c # r \<Longrightarrow> peek ''('' t = (take 1 r = ''('')"
  by (cases r) (auto simp: peek_def)

lemma peek_2: "scan t = 0 \<Longrightarrow> active t = c # r \<Longrightarrow> peek ''#('' t = (take 2 r = ''#('')"
proof (cases r)
  case Nil
  assume "scan t = 0" "active t = c # r"
  with Nil show ?thesis by (simp add: peek_def)
next
  case (Cons d r')
  assume "scan t = 0" "active t = c # r"
  with Cons show ?thesis by (cases r') (auto simp: peek_def)
qed

lemma body_plain:
  assumes "scan t = 0" and "active t = c # r" and "plain c"
    and "c = CHR ''#'' \<longrightarrow> take 1 r \<noteq> ''('' \<and> take 2 r \<noteq> ''#(''"
  shows "body t = Inr (t\<lparr>neutral := neutral t @ [c], active := r\<rparr>, False)"
proof (cases "c = CHR ''#''")
  case False
  with assms(1-3) show ?thesis
    by (simp add: body_def plain_def move_active_char_to_neutral_def delete_active_char_def
        del_at_0)
next
  case True
  with assms(4) have "take 1 r \<noteq> ''(''" "take 2 r \<noteq> ''#(''" by simp_all
  then have "\<not> peek ''('' t" "\<not> peek ''#('' t"
    by (simp_all only: peek_1 [OF assms(1,2)] peek_2 [OF assms(1,2)] not_False_eq_True)
  with True assms(1-3) show ?thesis
    by (simp add: body_def plain_def move_active_char_to_neutral_def delete_active_char_def
        del_at_0)
qed

lemma plain_not_paren: "plain c \<Longrightarrow> c \<noteq> CHR ''(''"
  by (simp add: plain_def)

lemma no_introducer:
  assumes "list_all plain p" and "r = [] \<or> (hd r \<noteq> CHR ''('' \<and> hd r \<noteq> CHR ''#'')"
  shows "take 1 (p @ r) \<noteq> ''('' \<and> take 2 (p @ r) \<noteq> ''#(''"
proof (cases p)
  case Nil
  with assms(2) show ?thesis by (cases r) auto
next
  case (Cons d p')
  with assms(1) have d: "d \<noteq> CHR ''(''" by (simp add: plain_def)
  show ?thesis
  proof (cases p')
    case Nil
    with Cons d assms(2) show ?thesis by (cases r) auto
  next
    case (Cons e p'')
    with \<open>p = d # p'\<close> assms(1) have "e \<noteq> CHR ''(''" by (simp add: plain_def)
    with Cons \<open>p = d # p'\<close> d show ?thesis by simp
  qed
qed

lemma loop_plain:
  assumes "list_all plain p" and "scan t = 0" and "active t = p @ r"
    and "r = [] \<or> (hd r \<noteq> CHR ''('' \<and> hd r \<noteq> CHR ''#'')"
  shows "loop t = loop (t\<lparr>neutral := neutral t @ p, active := r\<rparr>)"
  using assms
proof (induction p arbitrary: t)
  case Nil
  then have "t\<lparr>neutral := neutral t @ [], active := r\<rparr> = t" by simp
  then show ?case by simp
next
  case (Cons c p)
  let ?t' = "t\<lparr>neutral := neutral t @ [c], active := p @ r\<rparr>"
  from Cons.prems(1) have pc: "plain c" and pp: "list_all plain p" by simp_all
  from Cons.prems(3) have a: "active t = c # (p @ r)" by simp
  have "body t = Inr (?t', False)"
    using body_plain [OF Cons.prems(2) a pc] no_introducer [OF pp Cons.prems(4)] by blast
  then have "loop t = loop ?t'" by (rule loop_round [OF Cons.prems(2) a])
  also have "\<dots> = loop (?t'\<lparr>neutral := neutral ?t' @ p, active := r\<rparr>)"
    by (rule Cons.IH [OF pp _ _ Cons.prems(4)]) (simp_all add: Cons.prems(2))
  finally show ?case by simp
qed


lemma loop_comma:
  "scan t = 0 \<Longrightarrow> active t = CHR '','' # r \<Longrightarrow>
   loop t = loop (mark_argument_boundary (t\<lparr>active := r\<rparr>))"
  by (rule loop_round [OF _ _ body_comma])

lemma loop_open_active:
  "scan t = 0 \<Longrightarrow> active t = CHR ''#'' # CHR ''('' # r \<Longrightarrow>
   loop t = loop (begin_function Active (t\<lparr>active := r\<rparr>))"
  by (rule loop_round [OF _ _ body_open_active])


lemma cbp_loop_split:
  "cbp_loop d 0 t =
     (case paren_split d (active t) of
        None \<Rightarrow> (t\<lparr>neutral := neutral t @ active t, active := []\<rparr>, False)
      | Some (x, r) \<Rightarrow> (t\<lparr>neutral := neutral t @ x, active := r\<rparr>, True))"
proof (induction "active t" arbitrary: d t)
  case Nil
  then have "active t = []" by simp
  then show ?case by (simp add: cbp_loop_end)
next
  case (Cons c cs)
  then have a: "active t = c # cs" by simp
  then have inr: "0 < length (active t)" and hd: "active t ! 0 = c" by simp_all
  let ?t' = "t\<lparr>neutral := neutral t @ [c], active := del_at 0 (active t)\<rparr>"
  have cs: "cs = active ?t'" by (simp add: a del_at_0)
  show ?case
  proof (cases "c = CHR ''(''")
    case True
    have "cbp_loop d 0 t = cbp_loop (d + 1) 0 ?t'"
      using cbp_loop_open [OF inr] hd True by simp
    with Cons.hyps(1) [OF cs, of "d + 1"] a True show ?thesis
      by (simp add: del_at_0 split: option.splits)
  next
    case no: False
    show ?thesis
    proof (cases "c = CHR '')''")
      case True
      show ?thesis
      proof (cases "d = 1")
        case d1: True
        from cbp_loop_close_last [OF inr _ d1] hd True a d1 show ?thesis
          by (simp add: del_at_0)
      next
        case False
        have "cbp_loop d 0 t = cbp_loop (d - 1) 0 ?t'"
          using cbp_loop_close [OF inr _ False] hd True by simp
        with Cons.hyps(1) [OF cs, of "d - 1"] a True False show ?thesis
          by (simp add: del_at_0 split: option.splits)
      qed
    next
      case False
      have "cbp_loop d 0 t = cbp_loop d 0 ?t'"
        using cbp_loop_other [OF inr] hd no False by simp
      with Cons.hyps(1) [OF cs, of d] a no False show ?thesis
        by (simp add: del_at_0 split: option.splits)
    qed
  qed
qed

lemma body_protect:
  assumes "scan t = 0" and "active t = CHR ''('' # a" and "paren_split 1 a = Some (x, r)"
  shows "body t = Inr (t\<lparr>neutral := neutral t @ x, active := r\<rparr>, False)"
proof -
  have "delete_active_char t = t\<lparr>active := a\<rparr>"
    using assms(1,2) by (simp add: delete_active_char_def del_at_0)
  then have "consume_balanced_parentheses_into_neutral t
      = (t\<lparr>neutral := neutral t @ x, active := r\<rparr>, True)"
    using assms by (simp add: consume_balanced_parentheses_into_neutral_def cbp_loop_split)
  from body_open_paren [OF _ _ this] assms(1,2) show ?thesis by simp
qed

lemma loop_protect:
  "scan t = 0 \<Longrightarrow> active t = CHR ''('' # a \<Longrightarrow> paren_split 1 a = Some (x, r) \<Longrightarrow>
   loop t = loop (t\<lparr>neutral := neutral t @ x, active := r\<rparr>)"
  by (rule loop_round [OF _ _ body_protect])

lemma paren_split_plain:
  "list_all plain p \<Longrightarrow>
   paren_split d (p @ r) = map_option (\<lambda>(x, r'). (p @ x, r')) (paren_split d r)"
proof (induction p)
  case Nil
  show ?case by (simp add: option.map_ident split_def)
next
  case (Cons c p)
  then show ?case by (simp add: plain_def option.map_comp comp_def split_def)
qed

lemma paren_split_plain_close:
  "list_all plain p \<Longrightarrow> paren_split 1 (p @ CHR '')'' # r) = Some (p, r)"
  by (simp add: paren_split_plain)

section \<open>What is printed does not steer the run\<close>

lemma erase_eq: "erase a = erase b \<longleftrightarrow> b = a\<lparr>stdout := stdout b\<rparr>"
  by (cases a, cases b) (auto simp: erase_def)

lemma erase_stdout [simp]: "erase (t\<lparr>stdout := w\<rparr>) = erase t"
  by (simp add: erase_def)

lemma arg_stdout [simp]: "arg (t\<lparr>stdout := w\<rparr>) i = arg t i"
  by (simp add: arg_def)

lemma int_arg_stdout [simp]: "int_arg (t\<lparr>stdout := w\<rparr>) i = int_arg t i"
  by (simp add: int_arg_def)

lemma dd_step_stdout: "dd_step (t\<lparr>stdout := w\<rparr>) i = (dd_step t i)\<lparr>stdout := w\<rparr>"
  by (simp add: dd_step_def Let_def)

lemma dd_fold_stdout: "foldl dd_step (t\<lparr>stdout := w\<rparr>) is = (foldl dd_step t is)\<lparr>stdout := w\<rparr>"
  by (induction "is" arbitrary: t) (simp_all add: dd_step_stdout)

lemma handler_stdout:
  assumes "map_of builtins name = Some h"
  shows "erase (fst (h (t\<lparr>stdout := w\<rparr>))) = erase (fst (h t))
         \<and> snd (h (t\<lparr>stdout := w\<rparr>)) = snd (h t)"
proof -
  have a: "\<And>f. erase (fst (arith f (t\<lparr>stdout := w\<rparr>))) = erase (fst (arith f t))
         \<and> snd (arith f (t\<lparr>stdout := w\<rparr>)) = snd (arith f t)"
    by (simp add: arith_def split: option.splits)
  from assms have "h \<in> {ds, ss, cl, eq, ml, su, ad, ln, dd, ps}"
    by (simp add: map_of_builtins_cases split: if_splits)
  then consider "h = ds" | "h = ss" | "h = cl" | "h = eq" | "h = ml" | "h = su" | "h = ad"
    | "h = ln" | "h = dd" | "h = ps" by blast
  then show ?thesis
  proof cases
    case 1 then show ?thesis by (simp add: ds_def Let_def erase_def)
  next
    case 2 then show ?thesis by (simp add: ss_def Let_def erase_def split: option.splits)
  next
    case 3 then show ?thesis by (simp add: cl_def Let_def split: option.splits)
  next
    case 4 then show ?thesis by (simp add: eq_def Let_def)
  next
    case 5 then show ?thesis by (simp add: ml_def a)
  next
    case 6 then show ?thesis by (simp add: su_def a)
  next
    case 7 then show ?thesis by (simp add: ad_def a)
  next
    case 8 then show ?thesis by (simp add: ln_def Let_def)
  next
    case 9 then show ?thesis by (simp add: dd_def dd_fold_stdout)
  next
    case 10 then show ?thesis by (simp add: ps_def Let_def erase_def)
  qed
qed

lemma evaluate_stdout:
  "erase (fst (evaluate name (t\<lparr>stdout := w\<rparr>))) = erase (fst (evaluate name t))
   \<and> snd (evaluate name (t\<lparr>stdout := w\<rparr>)) = snd (evaluate name t)"
proof (cases "map_of builtins name")
  case None
  then show ?thesis by (simp add: evaluate_def)
next
  case (Some h)
  from handler_stdout [OF Some, where t = t and w = w] Some show ?thesis
    by (simp add: evaluate_def split: prod.splits sum.splits) (auto simp: erase_def)
qed

lemma efe_stdout:
  "erase (end_function_and_evaluate (t\<lparr>stdout := w\<rparr>)) = erase (end_function_and_evaluate t)"
proof (cases "frames t = []")
  case True
  then show ?thesis by (simp add: efe_empty clear_processor_def erase_def)
next
  case False
  have ca: "call_args (t\<lparr>stdout := w\<rparr>) = call_args t" by (simp add: call_args_def)
  have pc: "pre_call (t\<lparr>stdout := w\<rparr>) = (pre_call t)\<lparr>stdout := w\<rparr>"
    by (simp add: pre_call_def ca)
  obtain u v where e1: "evaluate (hd (call_args t)) (pre_call t) = (u, v)" by force
  obtain u' v' where e2: "evaluate (hd (call_args t)) ((pre_call t)\<lparr>stdout := w\<rparr>) = (u', v')"
    by force
  from evaluate_stdout [where name = "hd (call_args t)" and t = "pre_call t" and w = w] e1 e2
  have uv: "erase u' = erase u" "v' = v" by simp_all
  from uv(1) [symmetric] have "u' = u\<lparr>stdout := stdout u'\<rparr>" by (simp only: erase_eq)
  then have "erase ((deliver (f_mode (last (frames t))) v' u')\<lparr>args := []\<rparr>)
      = erase ((deliver (f_mode (last (frames t))) v u)\<lparr>args := []\<rparr>)"
    using uv(2) by (cases u, cases u') (simp add: deliver_def erase_def)
  with False e1 e2 show ?thesis by (simp add: efe_unfold ca pc)
qed

lemma delete_active_char_stdout:
  "delete_active_char (t\<lparr>stdout := w\<rparr>) = (delete_active_char t)\<lparr>stdout := w\<rparr>"
  by (simp add: delete_active_char_def)

lemma consume_stdout:
  assumes "scan t = 0"
  shows "consume_balanced_parentheses_into_neutral (t\<lparr>stdout := w\<rparr>)
      = (case consume_balanced_parentheses_into_neutral t of (u, ok) \<Rightarrow> (u\<lparr>stdout := w\<rparr>, ok))"
  using assms
  by (simp add: consume_balanced_parentheses_into_neutral_def delete_active_char_def
      cbp_loop_split Let_def split: option.splits)

lemma move_stdout:
  "move_active_char_to_neutral (t\<lparr>stdout := w\<rparr>)
      = map_sum id (\<lambda>u. u\<lparr>stdout := w\<rparr>) (move_active_char_to_neutral t)"
  by (simp add: move_active_char_to_neutral_def delete_active_char_def)

lemma peek_stdout: "peek e (t\<lparr>stdout := w\<rparr>) = peek e t"
  by (simp add: peek_def)

lemma mark_stdout:
  "mark_argument_boundary (t\<lparr>stdout := w\<rparr>) = (mark_argument_boundary t)\<lparr>stdout := w\<rparr>"
  by (simp add: mark_argument_boundary_def Let_def)

lemma begin_stdout: "begin_function m (t\<lparr>stdout := w\<rparr>) = (begin_function m t)\<lparr>stdout := w\<rparr>"
  by (simp add: begin_function_def)

lemma clear_stdout: "erase (clear_processor (t\<lparr>stdout := w\<rparr>)) = erase (clear_processor t)"
  by (simp add: clear_processor_def erase_def)

lemma body_stdout:
  assumes "scan t = 0" and "scan t < length (active t)"
  shows "\<exists>u u' brk. body t = Inr (u, brk) \<and> body (t\<lparr>stdout := w\<rparr>) = Inr (u', brk)
           \<and> erase u' = erase u"
  using assms(2)
  by (auto simp: body_def Let_def delete_active_char_stdout consume_stdout [OF assms(1)]
      move_stdout peek_stdout mark_stdout begin_stdout clear_stdout efe_stdout
      move_active_char_to_neutral_eq [OF assms(2)] split: prod.splits)

lemma erase_fields:
  assumes "erase a = erase b"
  shows "active a = active b" "scan a = scan b" "neutral a = neutral b" "forms a = forms b"
    "frames a = frames b" "args a = args b"
proof -
  from assms have b: "b = a\<lparr>stdout := stdout b\<rparr>" by (simp only: erase_eq)
  show "active a = active b" by (subst b) simp
  show "scan a = scan b" by (subst b) simp
  show "neutral a = neutral b" by (subst b) simp
  show "forms a = forms b" by (subst b) simp
  show "frames a = frames b" by (subst b) simp
  show "args a = args b" by (subst b) simp
qed

lemma body_scan_0:
  assumes "scan t = 0" and "scan t < length (active t)" and "body t = Inr (u, brk)"
  shows "scan u = 0"
  by (rule body_preserves [where P = "\<lambda>t. scan t = 0", OF _ _ _ _ _ _ assms(2) assms(1) assms(3)])
    (simp_all add: delete_active_char_def clear_processor_def mark_argument_boundary_def
      Let_def begin_function_def efe_scan)

lemma steps_stdout:
  assumes "erase a = erase b" and "scan a = 0"
  shows "erase (steps n a) = erase (steps n b)"
  using assms
proof (induction n arbitrary: a b)
  case 0
  then show ?case by simp
next
  case (Suc n)
  note f = erase_fields [OF Suc.prems(1)]
  show ?case
  proof (cases "length (active a) \<le> scan a")
    case True
    with f Suc.prems show ?thesis by simp
  next
    case False
    then have inrange: "scan a < length (active a)" by simp
    from Suc.prems(1) have b: "b = a\<lparr>stdout := stdout b\<rparr>" by (simp only: erase_eq)
    from body_stdout [OF Suc.prems(2) inrange, of "stdout b"] b
    obtain u u' brk where bu: "body a = Inr (u, brk)" "body b = Inr (u', brk)"
      "erase u' = erase u" by auto
    from body_scan_0 [OF Suc.prems(2) inrange bu(1)] have "scan u = 0" .
    from Suc.IH [OF bu(3) [symmetric] this] bu False f show ?thesis by simp
  qed
qed

lemma loop_stdout_Some:
  assumes "erase a = erase b" and "scan a = 0" and "loop a = Some r"
  shows "\<exists>r'. loop b = Some r' \<and> map_sum id erase r' = map_sum id erase r"
proof -
  from loop_Some_steps [OF assms(3)] obtain n where
    n: "r = Inr (steps n a)" "length (active (steps n a)) \<le> scan (steps n a)" by blast
  note f = erase_fields [OF steps_stdout [OF assms(1,2), of n]]
  from n(2) f have "length (active (steps n b)) \<le> scan (steps n b)" by simp
  then have "loop b = Some (Inr (steps n b))" by (rule steps_halted_loop)
  with n(1) steps_stdout [OF assms(1,2), of n] show ?thesis by simp
qed

lemma loop_stdout:
  assumes "erase a = erase b" and "scan a = 0"
  shows "map_option (map_sum id erase) (loop a) = map_option (map_sum id erase) (loop b)"
proof (cases "loop a")
  case (Some r)
  from loop_stdout_Some [OF assms Some] Some show ?thesis by auto
next
  case None
  show ?thesis
  proof (cases "loop b")
    case None
    with \<open>loop a = None\<close> show ?thesis by simp
  next
    case (Some r)
    from erase_fields(2) [OF assms(1)] assms(2) have "scan b = 0" by simp
    from loop_stdout_Some [OF assms(1) [symmetric] this Some] None show ?thesis by simp
  qed
qed

lemma execute_stdout:
  assumes "erase a = erase b" and "scan a = 0"
    and "execute s1 t1 = (case loop a of None \<Rightarrow> None | Some (Inl e) \<Rightarrow> Some (Inl e)
                            | Some (Inr u) \<Rightarrow> Some (Inr (neutral u, u)))"
    and "execute s2 t2 = (case loop b of None \<Rightarrow> None | Some (Inl e) \<Rightarrow> Some (Inl e)
                            | Some (Inr u) \<Rightarrow> Some (Inr (neutral u, u)))"
  shows "without_output (execute s1 t1) = without_output (execute s2 t2)"
proof -
  note l = loop_stdout [OF assms(1,2)]
  show ?thesis
  proof (cases "loop a")
    case None
    with l have "loop b = None" by simp
    with None show ?thesis by (simp add: assms(3,4))
  next
    case (Some ra)
    with l obtain rb where rb: "loop b = Some rb" "map_sum id erase ra = map_sum id erase rb"
      by (cases "loop b") auto
    show ?thesis
    proof (cases ra)
      case (Inl e)
      with rb(2) have "rb = Inl e" by (cases rb) simp_all
      with Inl Some rb(1) show ?thesis by (simp add: assms(3,4))
    next
      case (Inr u)
      with rb(2) obtain u' where u': "rb = Inr u'" "erase u = erase u'" by (cases rb) simp_all
      from erase_fields(3) [OF u'(2)] have "neutral u = neutral u'" .
      with Inr Some rb(1) u' show ?thesis by (simp add: assms(3,4) without_output_def)
    qed
  qed
qed

section \<open>Protective parentheses around an argument\<close>

lemma scan_call_prefix:
  assumes N: "list_all plain N"
  shows "loop (reset_processor_with (''#(cl,'' @ N @ '','' @ r) t)
       = loop (t\<lparr>neutral := ''cl'' @ N, active := r, scan := 0,
                 frames := [\<lparr>f_begin = 0, f_mode = Active,
                             argument_slices = [(0, 2), (2, 2 + length N)],
                             current_argument_start = 2 + length N\<rparr>],
                 args := []\<rparr>)"
proof -
  let ?t0 = "reset_processor_with (''#(cl,'' @ N @ '','' @ r) t"
  let ?t1 = "begin_function Active (?t0\<lparr>active := ''cl,'' @ N @ '','' @ r\<rparr>)"
  let ?t2 = "?t1\<lparr>neutral := neutral ?t1 @ ''cl'', active := '','' @ N @ '','' @ r\<rparr>"
  let ?t3 = "mark_argument_boundary (?t2\<lparr>active := N @ '','' @ r\<rparr>)"
  let ?t4 = "?t3\<lparr>neutral := neutral ?t3 @ N, active := '','' @ r\<rparr>"
  let ?t5 = "mark_argument_boundary (?t4\<lparr>active := r\<rparr>)"
  have "loop ?t0 = loop ?t1"
    by (rule loop_open_active) (simp_all add: reset_processor_with_def)
  also have "\<dots> = loop ?t2"
    by (rule loop_plain)
      (simp_all add: reset_processor_with_def begin_function_def plain_def skip_chars_def)
  also have "\<dots> = loop ?t3"
    by (rule loop_comma) (simp_all add: reset_processor_with_def begin_function_def)
  also have "\<dots> = loop ?t4"
    by (rule loop_plain [OF N])
      (simp_all add: reset_processor_with_def begin_function_def mark_argument_boundary_def)
  also have "\<dots> = loop ?t5"
    by (rule loop_comma)
      (simp_all add: reset_processor_with_def begin_function_def mark_argument_boundary_def)
  also have "?t5 = t\<lparr>neutral := ''cl'' @ N, active := r, scan := 0,
                 frames := [\<lparr>f_begin = 0, f_mode = Active,
                             argument_slices = [(0, 2), (2, 2 + length N)],
                             current_argument_start = 2 + length N\<rparr>],
                 args := []\<rparr>"
    by (simp add: reset_processor_with_def begin_function_def mark_argument_boundary_def)
  finally show ?thesis .
qed

text \<open>
  C8, as stated, fails: an idle character in \<open>X\<close> is dropped when \<open>X\<close> is scanned
  bare and kept when \<open>X\<close> stands in protective parentheses. With the form \<^verbatim>\<open>N\<close>
  defined by \<^verbatim>\<open>#(ds,N,((Z)))\<close> and \<^verbatim>\<open>#(ss,N,Z)\<close>, the call with \<open>(X)\<close> for
  \<open>X = a'b\<close> returns \<^verbatim>\<open>a'b\<close> and the call with \<open>X\<close> returns \<^verbatim>\<open>ab\<close>.
\<close>

theorem protective_quoting_keeps_idle:
  "execute ''#(ds,N,((Z)))#(ss,N,Z)'' new_trac
     = Some (Inr ([], \<lparr>forms = [(''N'', [Lit ''('', Marker 1, Lit '')''])], active = [],
                        neutral = [], scan = 0, frames = [], args = [],
                        stdout = ''#(ds,N,((Z)))#(ss,N,Z)'' @ [CHR 0x0A]\<rparr>))
   \<and> execute (''#(cl,N,(a'' @ [CHR 0x27] @ ''b))'')
         \<lparr>forms = [(''N'', [Lit ''('', Marker 1, Lit '')''])], active = [],
           neutral = [], scan = 0, frames = [], args = [],
           stdout = ''#(ds,N,((Z)))#(ss,N,Z)'' @ [CHR 0x0A]\<rparr>
     = Some (Inr (''a'' @ [CHR 0x27] @ ''b'',
          \<lparr>forms = [(''N'', [Lit ''('', Marker 1, Lit '')''])], active = [],
            neutral = ''a'' @ [CHR 0x27] @ ''b'', scan = 0, frames = [], args = [],
            stdout = ''#(ds,N,((Z)))#(ss,N,Z)'' @ [CHR 0x0A]
                       @ ''#(cl,N,(a'' @ [CHR 0x27] @ ''b))'' @ [CHR 0x0A]\<rparr>))
   \<and> execute (''#(cl,N,a'' @ [CHR 0x27] @ ''b)'')
         \<lparr>forms = [(''N'', [Lit ''('', Marker 1, Lit '')''])], active = [],
           neutral = [], scan = 0, frames = [], args = [],
           stdout = ''#(ds,N,((Z)))#(ss,N,Z)'' @ [CHR 0x0A]\<rparr>
     = Some (Inr (''ab'',
          \<lparr>forms = [(''N'', [Lit ''('', Marker 1, Lit '')''])], active = [],
            neutral = ''ab'', scan = 0, frames = [], args = [],
            stdout = ''#(ds,N,((Z)))#(ss,N,Z)'' @ [CHR 0x0A]
                       @ ''#(cl,N,a'' @ [CHR 0x27] @ ''b)'' @ [CHR 0x0A]\<rparr>))"
  by code_simp

text \<open>
  C8, amended: for a name \<open>N\<close> and a text \<open>X\<close> that contain no comma, no parenthesis
  and no idle character, \<^verbatim>\<open>#(cl,N,(X))\<close> and \<^verbatim>\<open>#(cl,N,X)\<close> give the same result from
  the same interpreter: the same text returned (or the same failure to return) and the
  same interpreter afterwards, but for the echo of the source text in what is printed.
\<close>

theorem protective_quoting_idempotent:
  assumes N: "list_all plain N" and X: "list_all plain X"
  shows "without_output (execute (''#(cl,'' @ N @ '','' @ ''('' @ X @ '')'' @ '')'') t)
       = without_output (execute (''#(cl,'' @ N @ '','' @ X @ '')'') t)"
proof -
  let ?s1 = "''#(cl,'' @ N @ '','' @ ''('' @ X @ '')'' @ '')''"
  let ?s2 = "''#(cl,'' @ N @ '','' @ X @ '')''"
  let ?fr = "\<lparr>f_begin = 0, f_mode = Active, argument_slices = [(0, 2), (2, 2 + length N)],
              current_argument_start = 2 + length N\<rparr>"
  let ?mid = "\<lambda>w r. t\<lparr>stdout := w, neutral := ''cl'' @ N, active := r, scan := 0,
                      frames := [?fr], args := []\<rparr>"
  let ?fin = "\<lambda>w. t\<lparr>stdout := w, neutral := ''cl'' @ N @ X, active := '')'', scan := 0,
                      frames := [?fr], args := []\<rparr>"
  let ?w1 = "stdout t @ ?s1 @ [CHR 0x0A]"
  let ?w2 = "stdout t @ ?s2 @ [CHR 0x0A]"
  have "loop (reset_processor_with ?s1 (t\<lparr>stdout := ?w1\<rparr>))
      = loop (?mid ?w1 (''('' @ X @ '')'' @ '')''))"
    using scan_call_prefix [OF N, of "''('' @ X @ '')'' @ '')''" "t\<lparr>stdout := ?w1\<rparr>"] by simp
  also have "\<dots> = loop ((?mid ?w1 (''('' @ X @ '')'' @ '')''))
                        \<lparr>neutral := neutral (?mid ?w1 (''('' @ X @ '')'' @ '')'')) @ X,
                          active := '')''\<rparr>)"
    by (rule loop_protect [where a = "X @ '')'' @ '')''"])
      (simp_all add: paren_split_plain_close [OF X])
  finally have l1: "loop (reset_processor_with ?s1 (t\<lparr>stdout := ?w1\<rparr>)) = loop (?fin ?w1)"
    by (cases t) simp
  have "loop (reset_processor_with ?s2 (t\<lparr>stdout := ?w2\<rparr>)) = loop (?mid ?w2 (X @ '')''))"
    using scan_call_prefix [OF N, of "X @ '')''" "t\<lparr>stdout := ?w2\<rparr>"] by simp
  also have "\<dots> = loop ((?mid ?w2 (X @ '')''))
                        \<lparr>neutral := neutral (?mid ?w2 (X @ '')'')) @ X, active := '')''\<rparr>)"
    by (rule loop_plain [OF X]) simp_all
  finally have l2: "loop (reset_processor_with ?s2 (t\<lparr>stdout := ?w2\<rparr>)) = loop (?fin ?w2)"
    by (cases t) simp
  have e: "erase (?fin ?w1) = erase (?fin ?w2)" by (simp add: erase_def)
  have x1: "execute ?s1 t = (case loop (?fin ?w1) of None \<Rightarrow> None
      | Some (Inl e) \<Rightarrow> Some (Inl e) | Some (Inr u) \<Rightarrow> Some (Inr (neutral u, u)))"
    by (simp only: execute_def l1)
  have x2: "execute ?s2 t = (case loop (?fin ?w2) of None \<Rightarrow> None
      | Some (Inl e) \<Rightarrow> Some (Inl e) | Some (Inr u) \<Rightarrow> Some (Inr (neutral u, u)))"
    by (simp only: execute_def l2)
  show ?thesis
    by (rule execute_stdout [OF e _ x1 x2]) simp
qed

theorem protective_quoting_idempotent_witness:
  "list_all plain ''N'' \<and> list_all plain ''a#b''
   \<and> without_output (execute (''#(cl,'' @ ''N'' @ '','' @ ''('' @ ''a#b'' @ '')'' @ '')'')
         (new_trac\<lparr>forms := [(''N'', [Lit ''('', Marker 1, Lit '')''])]\<rparr>))
     = without_output (execute (''#(cl,'' @ ''N'' @ '','' @ ''a#b'' @ '')'')
         (new_trac\<lparr>forms := [(''N'', [Lit ''('', Marker 1, Lit '')''])]\<rparr>))
   \<and> without_output (execute (''#(cl,'' @ ''N'' @ '','' @ ''a#b'' @ '')'')
         (new_trac\<lparr>forms := [(''N'', [Lit ''('', Marker 1, Lit '')''])]\<rparr>))
     = Some (Inr (''a#b'',
         \<lparr>forms = [(''N'', [Lit ''('', Marker 1, Lit '')''])], active = [], neutral = ''a#b'',
           scan = 0, frames = [], args = [], stdout = []\<rparr>))"
proof -
  have N: "list_all plain ''N''" by (simp add: plain_def skip_chars_def)
  have X: "list_all plain ''a#b''" by (simp add: plain_def skip_chars_def)
  have v: "without_output (execute (''#(cl,'' @ ''N'' @ '','' @ ''a#b'' @ '')'')
         (new_trac\<lparr>forms := [(''N'', [Lit ''('', Marker 1, Lit '')''])]\<rparr>))
     = Some (Inr (''a#b'',
         \<lparr>forms = [(''N'', [Lit ''('', Marker 1, Lit '')''])], active = [], neutral = ''a#b'',
           scan = 0, frames = [], args = [], stdout = []\<rparr>))"
    by code_simp
  from protective_quoting_idempotent
         [OF N X, of "new_trac\<lparr>forms := [(''N'', [Lit ''('', Marker 1, Lit '')''])]\<rparr>"] N X v
  show ?thesis by blast
qed

section \<open>Decimal text and its value\<close>

























subsection \<open>The number of digits\<close>









section \<open>Scanning a call, argument by argument\<close>



lemma st_fields [simp]:
  "active (st t a nt fs) = a" "neutral (st t a nt fs) = nt" "frames (st t a nt fs) = fs"
  "scan (st t a nt fs) = 0" "args (st t a nt fs) = []" "forms (st t a nt fs) = forms t"
  "stdout (st t a nt fs) = stdout t"
  by (simp_all add: st_def)

lemma st_st [simp]: "st (st t a nt fs) a' nt' fs' = st t a' nt' fs'"
  by (simp add: st_def)

lemma st_upd [simp]:
  "(st t a nt fs)\<lparr>active := a'\<rparr> = st t a' nt fs"
  "(st t a nt fs)\<lparr>neutral := nt'\<rparr> = st t a nt' fs"
  "(st t a nt fs)\<lparr>frames := fs'\<rparr> = st t a nt fs'"
  by (simp_all add: st_def)

lemma st_args [simp]: "st (t\<lparr>args := as\<rparr>) a nt fs = st t a nt fs"
  by (simp add: st_def)














section \<open>The factorial form\<close>


















section \<open>Arithmetic\<close>









section \<open>Segment markers\<close>

declare spec_replace.simps [simp del]

declare spec_parts.simps [simp del]

lemma first_match_Some:
  "first_match pats s = Some (p, a) \<Longrightarrow> p \<noteq> [] \<and> take (length p) s = p \<and> (p, a) \<in> set pats"
  by (induction pats) (auto split: if_splits)

lemma first_match_shorter:
  assumes "first_match pats s = Some (p, a)"
  shows "length (drop (length p) s) < length s"
proof -
  from first_match_Some [OF assms] have "p \<noteq> []" "take (length p) s = p" by simp_all
  then have "s \<noteq> []" by auto
  with \<open>p \<noteq> []\<close> show ?thesis by (cases s; cases p) simp_all
qed

lemma first_match_append:
  "first_match (pats @ qats) s
     = (case first_match pats s of Some r \<Rightarrow> Some r | None \<Rightarrow> first_match qats s)"
  by (induction pats s rule: first_match.induct) simp_all

lemma first_match_map:
  "first_match (map (\<lambda>(p, x). (p, f x)) pats) s
     = map_option (\<lambda>(p, x). (p, f x)) (first_match pats s)"
  by (induction pats s rule: first_match.induct) simp_all

lemma spec_parts_Nil: "spec_parts pats [] = [Lit []]"
  by (simp add: spec_parts.simps)

lemma spec_parts_match:
  assumes "first_match pats s = Some (p, n)"
  shows "spec_parts pats s = Lit [] # Marker n # spec_parts pats (drop (length p) s)"
proof -
  from first_match_Some [OF assms] have "s \<noteq> []" by auto
  with assms show ?thesis by (subst spec_parts.simps) simp
qed

lemma spec_parts_step:
  "first_match pats (c # cs) = None \<Longrightarrow> spec_parts pats (c # cs) = prepend [c] (spec_parts pats cs)"
  by (subst spec_parts.simps) simp

lemma alt_Lit: "alt parts \<Longrightarrow> \<exists>x r. parts = Lit x # r"
  by (cases parts rule: alt.cases) simp_all

lemma alt_prepend: "alt parts \<Longrightarrow> alt (prepend u parts)"
  by (cases parts rule: alt.cases) simp_all

lemma prepend_Nil: "alt parts \<Longrightarrow> prepend [] parts = parts"
  by (auto dest: alt_Lit)

lemma prepend_prepend: "prepend u (prepend v parts) = prepend (u @ v) parts"
  by (cases "(v, parts)" rule: prepend.cases) simp_all

lemma prepend_append: "alt xs \<Longrightarrow> prepend u (xs @ ys) = prepend u xs @ ys"
  by (auto dest: alt_Lit)

lemma alt_spec_parts: "alt (spec_parts pats s)"
proof (induction "length s" arbitrary: s rule: less_induct)
  case less
  show ?case
  proof (cases s)
    case Nil
    then show ?thesis by (simp add: spec_parts_Nil)
  next
    case (Cons c cs)
    show ?thesis
    proof (cases "first_match pats s")
      case None
      with Cons have "spec_parts pats s = prepend [c] (spec_parts pats cs)"
        by (simp add: spec_parts_step)
      moreover have "alt (spec_parts pats cs)" using less [of cs] Cons by simp
      ultimately show ?thesis by (simp add: alt_prepend)
    next
      case (Some r)
      obtain p n where "r = (p, n)" by (cases r)
      with Some have m: "first_match pats s = Some (p, n)" by simp
      have "alt (spec_parts pats (drop (length p) s))"
        by (rule less) (rule first_match_shorter [OF m])
      with spec_parts_match [OF m] show ?thesis by simp
    qed
  qed
qed

lemma spec_parts_first:
  "spec_parts pats s = Lit w # rest \<Longrightarrow> take (length w) s = w"
proof (induction s arbitrary: w rest)
  case Nil
  then show ?case by (simp add: spec_parts_Nil)
next
  case (Cons c cs)
  show ?case
  proof (cases "first_match pats (c # cs)")
    case None
    obtain w0 r0 where w0: "spec_parts pats cs = Lit w0 # r0"
      using alt_Lit [OF alt_spec_parts] by blast
    with Cons.prems None have "w = c # w0" by (simp add: spec_parts_step)
    with Cons.IH [OF w0] show ?thesis by simp
  next
    case (Some r)
    obtain p n where "r = (p, n)" by (cases r)
    with Some have m: "first_match pats (c # cs) = Some (p, n)" by simp
    from Cons.prems spec_parts_match [OF m] show ?thesis by simp
  qed
qed

lemma spec_parts_skip:
  "d \<le> length s \<Longrightarrow> (\<forall>x<d. first_match pats (drop x s) = None) \<Longrightarrow>
   spec_parts pats s = prepend (take d s) (spec_parts pats (drop d s))"
proof (induction d arbitrary: s)
  case 0
  show ?case by (simp add: prepend_Nil alt_spec_parts)
next
  case (Suc d)
  then obtain c cs where s: "s = c # cs" by (cases s) auto
  from Suc.prems(2) have "first_match pats (drop 0 s) = None" by blast
  then have "spec_parts pats s = prepend [c] (spec_parts pats cs)" by (simp add: s spec_parts_step)
  moreover have "\<forall>x<d. first_match pats (drop x cs) = None"
  proof (intro allI impI)
    fix x
    assume "x < d"
    then have "first_match pats (drop (Suc x) s) = None" using Suc.prems(2) by simp
    then show "first_match pats (drop x cs) = None" by (simp add: s)
  qed
  then have "spec_parts pats cs = prepend (take d cs) (spec_parts pats (drop d cs))"
    using Suc.IH [of cs] Suc.prems(1) s by simp
  ultimately show ?case by (simp add: s prepend_prepend)
qed

lemma spec_parts_no_match:
  assumes "\<forall>x<length s. first_match pats (drop x s) = None"
  shows "spec_parts pats s = [Lit s]"
  using spec_parts_skip [OF le_refl assms] by (simp add: spec_parts_Nil)

lemma spec_parts_cong:
  assumes "\<And>s. first_match pats s = first_match qats s"
  shows "spec_parts pats s = spec_parts qats s"
proof (induction "length s" arbitrary: s rule: less_induct)
  case less
  show ?case
  proof (cases s)
    case Nil
    then show ?thesis by (simp add: spec_parts_Nil)
  next
    case (Cons c cs)
    show ?thesis
    proof (cases "first_match pats s")
      case None
      with assms [of s] have "first_match qats s = None" by simp
      with None Cons less [of cs] show ?thesis by (simp add: spec_parts_step)
    next
      case (Some r)
      obtain p n where "r = (p, n)" by (cases r)
      with Some have m: "first_match pats s = Some (p, n)" by simp
      with assms [of s] have m': "first_match qats s = Some (p, n)" by simp
      have "spec_parts pats (drop (length p) s) = spec_parts qats (drop (length p) s)"
        by (rule less) (rule first_match_shorter [OF m])
      with spec_parts_match [OF m] spec_parts_match [OF m'] show ?thesis by simp
    qed
  qed
qed

subsection \<open>The search of \<^verbatim>\<open>str.find\<close>\<close>

lemma py_find_None:
  "py_find s p i = None \<Longrightarrow> i \<le> x \<Longrightarrow> x + length p \<le> length s \<Longrightarrow>
   take (length p) (drop x s) \<noteq> p"
proof (induction s p i rule: py_find.induct)
  case (1 s p i)
  from "1.prems" have inr: "\<not> length s < i + length p" by simp
  with "1.prems"(1) have ne: "take (length p) (drop i s) \<noteq> p"
    and rec: "py_find s p (Suc i) = None"
    by (simp_all add: py_find.simps [of s p i] split: if_splits)
  show ?case
  proof (cases "x = i")
    case True
    with ne show ?thesis by simp
  next
    case False
    with "1.prems" have "Suc i \<le> x" by simp
    from "1.IH" [OF inr ne rec this "1.prems"(3)] show ?thesis .
  qed
qed

lemma py_find_least:
  "py_find s p i = Some j \<Longrightarrow> i \<le> x \<Longrightarrow> x < j \<Longrightarrow> take (length p) (drop x s) \<noteq> p"
proof (induction s p i rule: py_find.induct)
  case (1 s p i)
  from "1.prems"(1) have inr: "\<not> length s < i + length p"
    by (simp add: py_find.simps [of s p i] split: if_splits)
  have ne: "take (length p) (drop i s) \<noteq> p"
  proof
    assume "take (length p) (drop i s) = p"
    with inr "1.prems"(1) have "j = i" by (simp add: py_find.simps [of s p i])
    with "1.prems" show False by simp
  qed
  with inr "1.prems"(1) have rec: "py_find s p (Suc i) = Some j"
    by (simp add: py_find.simps [of s p i])
  show ?case
  proof (cases "x = i")
    case True
    with ne show ?thesis by simp
  next
    case False
    with "1.prems" have "Suc i \<le> x" by simp
    from "1.IH" [OF inr ne rec this "1.prems"(3)] show ?thesis .
  qed
qed

lemma take_neq_short:
  assumes "length s < x + length p" and "p \<noteq> []"
  shows "take (length p) (drop x s) \<noteq> p"
proof
  assume eq: "take (length p) (drop x s) = p"
  have "length (take (length p) (drop x s)) \<le> length s - x" by simp
  then have "length p \<le> length s - x" by (simp only: eq)
  moreover from assms(2) have "0 < length p" by simp
  ultimately show False using assms(1) by arith
qed

lemma split_chunk_spec_parts:
  "p \<noteq> [] \<Longrightarrow> i \<le> length s \<Longrightarrow> split_chunk p n s i = spec_parts [(p, n)] (drop i s)"
proof (induction p n s i rule: split_chunk.induct)
  case (1 p n s i)
  note ne = \<open>p \<noteq> []\<close>
  show ?case
  proof (cases "py_find s p i")
    case None
    have "\<forall>x<length (drop i s). first_match [(p, n)] (drop x (drop i s)) = None"
    proof (intro allI impI)
      fix x
      assume "x < length (drop i s)"
      have "take (length p) (drop (x + i) s) \<noteq> p"
      proof (cases "x + i + length p \<le> length s")
        case True
        from py_find_None [OF None _ True] show ?thesis by simp
      next
        case False
        then show ?thesis by (intro take_neq_short ne) simp
      qed
      then show "first_match [(p, n)] (drop x (drop i s)) = None" by simp
    qed
    from spec_parts_no_match [OF this] have "spec_parts [(p, n)] (drop i s) = [Lit (drop i s)]" .
    with None show ?thesis by (simp add: split_chunk.simps [of p n s i])
  next
    case (Some j)
    from py_find_Some [OF Some]
    have ij: "i \<le> j" and js: "j + length p \<le> length s" and at: "take (length p) (drop j s) = p"
      by simp_all
    have IH: "split_chunk p n s (j + length p) = spec_parts [(p, n)] (drop (j + length p) s)"
      using "1.IH" [OF ne Some ne] js by simp
    have "\<forall>x<j - i. first_match [(p, n)] (drop x (drop i s)) = None"
    proof (intro allI impI)
      fix x
      assume "x < j - i"
      then have "x + i < j" by simp
      from py_find_least [OF Some _ this] have "take (length p) (drop (x + i) s) \<noteq> p" by simp
      then show "first_match [(p, n)] (drop x (drop i s)) = None" by simp
    qed
    moreover from ij js have "j - i \<le> length (drop i s)" by simp
    ultimately have "spec_parts [(p, n)] (drop i s)
        = prepend (take (j - i) (drop i s)) (spec_parts [(p, n)] (drop (j - i) (drop i s)))"
      by (rule spec_parts_skip [rotated])
    moreover from ij have "drop (j - i) (drop i s) = drop j s" by simp
    moreover have "first_match [(p, n)] (drop j s) = Some (p, n)" using ne at by simp
    from spec_parts_match [OF this]
    have "spec_parts [(p, n)] (drop j s)
        = Lit [] # Marker n # spec_parts [(p, n)] (drop (j + length p) s)"
      by (simp add: add.commute)
    moreover have "py_slice s i j = take (j - i) (drop i s)"
      by (simp add: py_slice_def drop_take)
    ultimately show ?thesis
      using Some ne IH by (simp add: split_chunk.simps [of p n s i])
  qed
qed

subsection \<open>One more pattern\<close>

lemma occurs_at_drop:
  assumes "occurs_at p (drop d s) x"
  shows "occurs_at p s (d + x)"
proof -
  from assms have ne: "p \<noteq> []" and le: "x + length p \<le> length s - d"
    and at: "take (length p) (drop (x + d) s) = p"
    by (simp_all add: occurs_at_def)
  from ne have "0 < length p" by simp
  with le have "d + x + length p \<le> length s" by arith
  with ne at show ?thesis by (simp add: occurs_at_def add.commute)
qed

lemma first_match_occurs:
  assumes "first_match pats (drop x s) = Some (q, m)"
  shows "occurs_at q s x \<and> (q, m) \<in> set pats"
proof -
  from first_match_Some [OF assms]
  have q: "q \<noteq> []" and at: "take (length q) (drop x s) = q" and mem: "(q, m) \<in> set pats"
    by simp_all
  have "\<not> length s < x + length q" using take_neq_short [OF _ q, of s x] at by blast
  with q at mem show ?thesis by (simp add: occurs_at_def)
qed

lemma chunks_spec_parts:
  assumes ne: "p \<noteq> []"
    and free: "\<And>q m x y. (q, m) \<in> set pats \<Longrightarrow> occurs_at p s x \<Longrightarrow> occurs_at q s y \<Longrightarrow>
                 x + length p \<le> y \<or> y + length q \<le> x"
  shows "concat (map (\<lambda>part. case part of Marker m \<Rightarrow> [Marker m]
                               | Lit x \<Rightarrow> spec_parts [(p, n)] x) (spec_parts pats s))
           = spec_parts (pats @ [(p, n)]) s"
  using free
proof (induction "length s" arbitrary: s rule: less_induct)
  case less
  let ?f = "\<lambda>part. case part of Marker m \<Rightarrow> [Marker m] | Lit x \<Rightarrow> spec_parts [(p, n)] x"
  have suffix: "x + length p \<le> y \<or> y + length q \<le> x"
    if "(q, m) \<in> set pats" and "occurs_at p (drop d s) x" and "occurs_at q (drop d s) y"
    for d q m x y
    using less.prems [OF that(1) occurs_at_drop [OF that(2)] occurs_at_drop [OF that(3)]]
    by arith
  show ?case
  proof (cases s)
    case Nil
    show ?thesis by (simp add: Nil spec_parts_Nil)
  next
    case (Cons c cs)
    show ?thesis
    proof (cases "first_match pats s")
      case (Some r)
      obtain q m where "r = (q, m)" by (cases r)
      with Some have fm: "first_match pats s = Some (q, m)" by simp
      have IH: "concat (map ?f (spec_parts pats (drop (length q) s)))
          = spec_parts (pats @ [(p, n)]) (drop (length q) s)"
        by (rule less.hyps [OF first_match_shorter [OF fm]]) (rule suffix)
      have fm': "first_match (pats @ [(p, n)]) s = Some (q, m)"
        by (simp add: first_match_append fm)
      show ?thesis
        by (simp add: spec_parts_match [OF fm] spec_parts_match [OF fm'] IH spec_parts_Nil)
    next
      case None
      show ?thesis
      proof (cases "take (length p) s = p")
        case False
        obtain w rest where w: "spec_parts pats cs = Lit w # rest"
          using alt_Lit [OF alt_spec_parts] by blast
        from None have s1: "spec_parts pats s = Lit (c # w) # rest"
          by (simp add: Cons spec_parts_step w)
        have fm': "first_match (pats @ [(p, n)]) (c # cs) = None"
          using None False by (simp add: first_match_append Cons)
        have "cs = drop 1 s" by (simp add: Cons)
        have IH: "concat (map ?f (spec_parts pats cs)) = spec_parts (pats @ [(p, n)]) cs"
          by (rule less.hyps) (simp add: Cons, unfold \<open>cs = drop 1 s\<close>, rule suffix)
        have pre: "take (length w) cs = w" by (rule spec_parts_first [OF w])
        have "take (length p) (c # w) \<noteq> p"
        proof
          assume eq: "take (length p) (c # w) = p"
          have "length (take (length p) (c # w)) \<le> length (c # w)" by simp
          then have le: "length p \<le> Suc (length w)" by (simp only: eq) simp
          have "c # w = take (Suc (length w)) s" by (simp add: Cons pre)
          then have "take (length p) (c # w) = take (length p) (take (Suc (length w)) s)" by simp
          also have "\<dots> = take (length p) s" using le by (simp add: min_def)
          finally show False using eq False by simp
        qed
        then have "first_match [(p, n)] (c # w) = None" by simp
        then have "spec_parts [(p, n)] (c # w) = prepend [c] (spec_parts [(p, n)] w)"
          by (rule spec_parts_step)
        moreover have "spec_parts (pats @ [(p, n)]) s
            = prepend [c] (spec_parts [(p, n)] w) @ concat (map ?f rest)"
          using spec_parts_step [OF fm'] IH [symmetric]
          by (simp add: Cons w prepend_append alt_spec_parts)
        ultimately show ?thesis by (simp add: s1)
      next
        case True
        have occ: "occurs_at p s 0"
        proof -
          have "\<not> length s < 0 + length p" using take_neq_short [OF _ ne, of s 0] True by auto
          with ne True show ?thesis by (simp add: occurs_at_def)
        qed
        then have len: "length p \<le> length s" by (simp add: occurs_at_def)
        have nom: "\<forall>x<length p. first_match pats (drop x s) = None"
        proof (intro allI impI)
          fix x
          assume x: "x < length p"
          show "first_match pats (drop x s) = None"
          proof (cases "first_match pats (drop x s)")
            case (Some r)
            obtain q m where "r = (q, m)" by (cases r)
            with Some have "first_match pats (drop x s) = Some (q, m)" by simp
            from first_match_occurs [OF this]
            have oq: "occurs_at q s x" and mem: "(q, m) \<in> set pats" by simp_all
            from oq have "0 < length q" by (simp add: occurs_at_def)
            with less.prems [OF mem occ oq] x show ?thesis by arith
          qed simp
        qed
        obtain w rest where w: "spec_parts pats (drop (length p) s) = Lit w # rest"
          using alt_Lit [OF alt_spec_parts] by blast
        from spec_parts_skip [OF len nom] have s1: "spec_parts pats s = Lit (p @ w) # rest"
          by (simp add: True w)
        have "first_match [(p, n)] (p @ w) = Some (p, n)" using ne by simp
        from spec_parts_match [OF this]
        have s2: "spec_parts [(p, n)] (p @ w) = Lit [] # Marker n # spec_parts [(p, n)] w" by simp
        have fm': "first_match (pats @ [(p, n)]) s = Some (p, n)"
          using None True ne by (simp add: first_match_append)
        have lt: "length (drop (length p) s) < length s" using ne len Cons by (cases p) simp_all
        have IH: "concat (map ?f (spec_parts pats (drop (length p) s)))
            = spec_parts (pats @ [(p, n)]) (drop (length p) s)"
          by (rule less.hyps [OF lt]) (rule suffix)
        show ?thesis
          using IH by (simp add: s1 s2 spec_parts_match [OF fm'] w)
      qed
    qed
  qed
qed

subsection \<open>Merging adjacent strings\<close>

lemma merge_alt:
  "alt parts \<Longrightarrow> acc = [] \<or> (\<exists>m. last acc = Marker m) \<Longrightarrow>
   foldl merge_step acc parts = acc @ parts"
proof (induction parts arbitrary: acc rule: alt.induct)
  case (1 x)
  then show ?case by auto
next
  case (2 x n rest)
  from "2.prems"(2) have a: "merge_step acc (Lit x) = acc @ [Lit x]" by auto
  have b: "merge_step (acc @ [Lit x]) (Marker n) = acc @ [Lit x, Marker n]" by simp
  from "2.prems"(1) have "alt rest" by simp
  moreover have "acc @ [Lit x, Marker n] = [] \<or> (\<exists>m. last (acc @ [Lit x, Marker n]) = Marker m)"
    by simp
  ultimately have "foldl merge_step (acc @ [Lit x, Marker n]) rest
      = (acc @ [Lit x, Marker n]) @ rest"
    by (rule "2.IH")
  then show ?case by (simp only: foldl_Cons a b append_assoc append_Cons append_Nil)
qed simp_all

lemma replace_pattern_spec_parts:
  assumes ne: "p \<noteq> []"
    and free: "\<And>q m x y. (q, m) \<in> set pats \<Longrightarrow> occurs_at p s x \<Longrightarrow> occurs_at q s y \<Longrightarrow>
                 x + length p \<le> y \<or> y + length q \<le> x"
  shows "replace_pattern_in_parts (spec_parts pats s) p n = spec_parts (pats @ [(p, n)]) s"
proof -
  have "\<And>x. split_chunk p n x 0 = spec_parts [(p, n)] x"
    using split_chunk_spec_parts [OF ne, of 0] by simp
  then have "replace_pattern_in_parts (spec_parts pats s) p n
      = foldl merge_step [] (concat (map (\<lambda>part. case part of Marker m \<Rightarrow> [Marker m]
                               | Lit x \<Rightarrow> spec_parts [(p, n)] x) (spec_parts pats s)))"
    using ne by (simp add: replace_pattern_in_parts_def)
  also have "\<dots> = foldl merge_step [] (spec_parts (pats @ [(p, n)]) s)"
    by (simp only: chunks_spec_parts [OF ne free])
  also have "\<dots> = spec_parts (pats @ [(p, n)]) s"
    using merge_alt [OF alt_spec_parts, of "[]"] by simp
  finally show ?thesis .
qed

subsection \<open>All the patterns of a call of \<^verbatim>\<open>ss\<close>\<close>

lemma overlap_free_iff:
  "overlap_free Ps B \<longleftrightarrow>
     (\<forall>i<length Ps. \<forall>j<length Ps. \<forall>x<length B. \<forall>y<length B.
        i = j \<or> \<not> occurs_at (Ps ! i) B x \<or> \<not> occurs_at (Ps ! j) B y
        \<or> x + length (Ps ! i) \<le> y \<or> y + length (Ps ! j) \<le> x)"
  by (simp add: overlap_free_def list_all_iff Ball_def)

lemma occurs_at_less: "occurs_at p s x \<Longrightarrow> x < length s"
proof -
  assume a: "occurs_at p s x"
  then have "0 < length p" and "x + length p \<le> length s" by (simp_all add: occurs_at_def)
  then show ?thesis by arith
qed

lemma overlap_freeD:
  assumes "overlap_free Ps B" and "i < length Ps" and "j < length Ps" and "i \<noteq> j"
    and "occurs_at (Ps ! i) B x" and "occurs_at (Ps ! j) B y"
  shows "x + length (Ps ! i) \<le> y \<or> y + length (Ps ! j) \<le> x"
  using assms occurs_at_less [OF assms(5)] occurs_at_less [OF assms(6)]
  unfolding overlap_free_iff by blast

lemma overlap_free_butlast:
  assumes "overlap_free (Ps @ [p]) B"
  shows "overlap_free Ps B"
  unfolding overlap_free_iff
proof (intro allI impI)
  fix i j x y
  assume "i < length Ps" and "j < length Ps" and "x < length B" and "y < length B"
  moreover from this have "(Ps @ [p]) ! i = Ps ! i" and "(Ps @ [p]) ! j = Ps ! j"
    by (simp_all add: nth_append)
  ultimately show "i = j \<or> \<not> occurs_at (Ps ! i) B x \<or> \<not> occurs_at (Ps ! j) B y
      \<or> x + length (Ps ! i) \<le> y \<or> y + length (Ps ! j) \<le> x"
    using assms [unfolded overlap_free_iff, rule_format, of i j x y] by simp
qed

lemma spec_parts_no_patterns: "spec_parts [] s = [Lit s]"
  by (rule spec_parts_no_match) simp

lemma spec_parts_empty_pattern: "spec_parts (pats @ [([], n)]) s = spec_parts pats s"
  by (rule spec_parts_cong) (simp add: first_match_append split: option.split)

lemma ss_fold:
  "overlap_free Ps B \<Longrightarrow>
   foldl ss_step [Lit B] (enumerate 1 Ps) = spec_parts (zip Ps (map Suc [0..<length Ps])) B"
proof (induction Ps rule: rev_induct)
  case Nil
  show ?case by (simp add: spec_parts_no_patterns)
next
  case (snoc p Ps)
  let ?k = "length Ps"
  let ?pats = "zip Ps (map Suc [0..<?k])"
  have IH: "foldl ss_step [Lit B] (enumerate 1 Ps) = spec_parts ?pats B"
    by (rule snoc.IH) (rule overlap_free_butlast [OF snoc.prems])
  have en: "enumerate 1 (Ps @ [p]) = enumerate 1 Ps @ [(Suc ?k, p)]"
    by (simp add: enumerate_append_eq)
  have z: "zip (Ps @ [p]) (map Suc [0..<length (Ps @ [p])]) = ?pats @ [(p, Suc ?k)]" by simp
  have "ss_step (spec_parts ?pats B) (Suc ?k, p) = spec_parts (?pats @ [(p, Suc ?k)]) B"
  proof (cases "p = []")
    case True
    then show ?thesis by (simp add: ss_step_def spec_parts_empty_pattern)
  next
    case False
    have "replace_pattern_in_parts (spec_parts ?pats B) p (Suc ?k)
        = spec_parts (?pats @ [(p, Suc ?k)]) B"
    proof (rule replace_pattern_spec_parts [OF False])
      fix q m x y
      assume mem: "(q, m) \<in> set ?pats" and op: "occurs_at p B x" and oq: "occurs_at q B y"
      from mem obtain i where i: "i < ?k" and q: "q = Ps ! i"
        by (auto simp add: set_zip)
      have "occurs_at ((Ps @ [p]) ! ?k) B x" using op by simp
      moreover have "occurs_at ((Ps @ [p]) ! i) B y" using oq i q by (simp add: nth_append)
      moreover have "?k < length (Ps @ [p])" and "i < length (Ps @ [p])" and "?k \<noteq> i"
        using i by simp_all
      ultimately have "x + length ((Ps @ [p]) ! ?k) \<le> y \<or> y + length ((Ps @ [p]) ! i) \<le> x"
        using overlap_freeD [OF snoc.prems, of ?k i x y] by blast
      then show "x + length p \<le> y \<or> y + length q \<le> x" using i q by (simp add: nth_append)
    qed
    with False show ?thesis by (simp add: ss_step_def)
  qed
  then show ?case by (simp only: en z foldl_append foldl_Cons foldl_Nil IH)
qed

subsection \<open>Filling the markers\<close>

lemma fill_Cons:
  "fill as (Lit x # r) = x @ fill as r" "fill as (Marker n # r) = replacement_get as n @ fill as r"
  by (simp_all add: fill_def)

lemma fill_prepend: "alt parts \<Longrightarrow> fill as (prepend u parts) = u @ fill as parts"
  by (auto dest!: alt_Lit simp add: fill_Cons)

lemma fill_spec_parts:
  "fill as (spec_parts pats s) = spec_replace (map (\<lambda>(p, n). (p, replacement_get as n)) pats) s"
proof (induction "length s" arbitrary: s rule: less_induct)
  case less
  let ?qats = "map (\<lambda>(p, n). (p, replacement_get as n)) pats"
  show ?case
  proof (cases s)
    case Nil
    then show ?thesis by (simp add: spec_parts_Nil fill_def spec_replace.simps)
  next
    case (Cons c cs)
    show ?thesis
    proof (cases "first_match pats s")
      case None
      then have "first_match ?qats s = None" by (simp add: first_match_map)
      then have "spec_replace ?qats s = c # spec_replace ?qats cs"
        by (subst spec_replace.simps) (simp add: Cons)
      moreover have "fill as (spec_parts pats cs) = spec_replace ?qats cs"
        by (rule less) (simp add: Cons)
      ultimately show ?thesis
        using None by (simp add: Cons spec_parts_step fill_prepend alt_spec_parts)
    next
      case (Some r)
      obtain p n where "r = (p, n)" by (cases r)
      with Some have m: "first_match pats s = Some (p, n)" by simp
      then have "first_match ?qats s = Some (p, replacement_get as n)"
        by (simp add: first_match_map)
      then have "spec_replace ?qats s = replacement_get as n @ spec_replace ?qats (drop (length p) s)"
        by (subst spec_replace.simps) (simp add: Cons)
      moreover have "fill as (spec_parts pats (drop (length p) s))
          = spec_replace ?qats (drop (length p) s)"
        by (rule less) (rule first_match_shorter [OF m])
      ultimately show ?thesis by (simp add: spec_parts_match [OF m] fill_Cons)
    qed
  qed
qed

lemma map_of_Suc_keys:
  "map_of (map (\<lambda>i. (Suc i, f i)) xs) (Suc i) = (if i \<in> set xs then Some (f i) else None)"
  by (induction xs) auto

lemma replacement_get_Cons:
  "replacement_get (N # As) (Suc i) = (if i < length As then As ! i else [])"
  by (simp add: replacement_get_def replacement_def map_of_Suc_keys del: upt_Suc)

lemma zip_arguments:
  assumes "length As = length Ps"
  shows "map (\<lambda>(p, n). (p, replacement_get (N # As) n)) (zip Ps (map Suc [0..<length Ps])) = zip Ps As"
proof (rule nth_equalityI)
  show "length (map (\<lambda>(p, n). (p, replacement_get (N # As) n)) (zip Ps (map Suc [0..<length Ps])))
      = length (zip Ps As)"
    using assms by simp
next
  fix i
  assume "i < length (map (\<lambda>(p, n). (p, replacement_get (N # As) n))
      (zip Ps (map Suc [0..<length Ps])))"
  then have i: "i < length Ps" by simp
  then have "(map Suc [0..<length Ps]) ! i = Suc i" by (simp del: upt_Suc)
  with i assms
  show "map (\<lambda>(p, n). (p, replacement_get (N # As) n)) (zip Ps (map Suc [0..<length Ps])) ! i
      = zip Ps As ! i"
    by (simp add: replacement_get_Cons del: upt_Suc)
qed

lemma evaluate_ss:
  "map_of (forms t) N = Some parts \<Longrightarrow>
   evaluate ''ss'' (t\<lparr>args := N # Ps\<rparr>)
     = (t\<lparr>args := N # Ps, forms := dict_set (forms t) N (foldl ss_step parts (enumerate 1 Ps))\<rparr>,
        [])"
  by (simp add: evaluate_def map_of_builtins_cases ss_def arg_def)

text \<open>
  C2, as the spec has it, fails where two patterns overlap in part, a case its
  condition lets through: with the body \<^verbatim>\<open>bab\<close>, no occurrence of \<^verbatim>\<open>ab\<close> or \<^verbatim>\<open>ba\<close>
  lies inside an occurrence of the other; \<^verbatim>\<open>ss\<close> cuts the patterns out one after the
  other in the order of its arguments, so \<^verbatim>\<open>#(ss,N,ab,ba)\<close> takes \<^verbatim>\<open>ab\<close> first, and
  then the call with \<^verbatim>\<open>X\<close>, \<^verbatim>\<open>Y\<close> returns \<^verbatim>\<open>bX\<close>: the occurrence of \<^verbatim>\<open>ba\<close> at the
  left is not replaced, and replacing from left to right would give \<^verbatim>\<open>Yb\<close>.
\<close>

theorem ss_partial_overlap:
  "nesting_free [''ab'', ''ba''] ''bab''
   \<and> execute ''#(ds,N,bab)#(ss,N,ab,ba)##(cl,N,X,Y)'' new_trac
       = Some (Inr (''bX'',
           \<lparr>forms = [(''N'', [Lit ''b'', Marker 1, Lit []])], active = [], neutral = ''bX'',
             scan = 0, frames = [], args = [],
             stdout = ''#(ds,N,bab)#(ss,N,ab,ba)##(cl,N,X,Y)'' @ [CHR 0x0A]\<rparr>))
   \<and> spec_replace (zip [''ab'', ''ba''] [''X'', ''Y'']) ''bab'' = ''Yb''"
proof -
  have "nesting_free [''ab'', ''ba''] ''bab''" by code_simp
  moreover have "execute ''#(ds,N,bab)#(ss,N,ab,ba)##(cl,N,X,Y)'' new_trac
       = Some (Inr (''bX'',
           \<lparr>forms = [(''N'', [Lit ''b'', Marker 1, Lit []])], active = [], neutral = ''bX'',
             scan = 0, frames = [], args = [],
             stdout = ''#(ds,N,bab)#(ss,N,ab,ba)##(cl,N,X,Y)'' @ [CHR 0x0A]\<rparr>))"
    by code_simp
  moreover have "spec_replace (zip [''ab'', ''ba''] [''X'', ''Y'']) ''bab'' = ''Yb''" by code_simp
  ultimately show ?thesis by (intro conjI)
qed

text \<open>
  C2. Let the form \<open>N\<close> be defined by \<^verbatim>\<open>ds\<close> with the body \<open>B\<close>, and let no occurrence
  in \<open>B\<close> of a non-empty pattern of \<open>P1, \<dots>, Pk\<close> share a character with an occurrence
  of a pattern at another place of the list. Then the call of \<^verbatim>\<open>ss\<close> with \<open>N, P1, \<dots>, Pk\<close>
  returns the empty string and stores the parts that one pass over \<open>B\<close> from left to
  right cuts out, the marker \<open>i\<close> standing for the \<open>i\<close>-th pattern whether or not
  empty patterns come before it, an empty pattern matching nowhere; and the call of
  \<^verbatim>\<open>cl\<close> with \<open>N, A1, \<dots>, Ak\<close> that follows returns \<open>B\<close> with every occurrence of a
  non-empty \<open>Pi\<close> replaced by \<open>Ai\<close>, matching left to right, without overlap.
\<close>

theorem ss_then_cl:
  assumes "N \<noteq> []" and "length As = length Ps" and "overlap_free Ps B"
  shows "\<exists>t0 t1. evaluate ''ds'' (t\<lparr>args := [N, B]\<rparr>) = (t0, [])
           \<and> evaluate ''ss'' (t0\<lparr>args := N # Ps\<rparr>) = (t1, [])
           \<and> map_of (forms t1) N = Some (spec_parts (zip Ps (map Suc [0..<length Ps])) B)
           \<and> evaluate ''cl'' (t1\<lparr>args := N # As\<rparr>)
               = (t1\<lparr>args := N # As\<rparr>, spec_replace (zip Ps As) B)"
proof -
  let ?t0 = "t\<lparr>args := [N, B], forms := dict_set (forms t) N [Lit B]\<rparr>"
  let ?parts = "spec_parts (zip Ps (map Suc [0..<length Ps])) B"
  let ?t1 = "?t0\<lparr>args := N # Ps, forms := dict_set (forms ?t0) N ?parts\<rparr>"
  have a: "evaluate ''ds'' (t\<lparr>args := [N, B]\<rparr>) = (?t0, [])"
    by (rule evaluate_ds [OF assms(1)])
  have "map_of (forms ?t0) N = Some [Lit B]" by (simp add: map_of_dict_set)
  from evaluate_ss [OF this, of Ps]
  have b: "evaluate ''ss'' (?t0\<lparr>args := N # Ps\<rparr>) = (?t1, [])"
    by (simp only: ss_fold [OF assms(3)])
  have c: "map_of (forms ?t1) N = Some ?parts" by (simp add: map_of_dict_set)
  have "fill (N # As) ?parts = spec_replace (zip Ps As) B"
    by (simp only: fill_spec_parts zip_arguments [OF assms(2)])
  with evaluate_cl [OF c, of As]
  have d: "evaluate ''cl'' (?t1\<lparr>args := N # As\<rparr>)
      = (?t1\<lparr>args := N # As\<rparr>, spec_replace (zip Ps As) B)"
    by simp
  from a b c d show ?thesis by blast
qed

theorem ss_then_cl_witness:
  "\<exists>t0 t1. evaluate ''ds'' (new_trac\<lparr>args := [''N'', ''a-b-a'']\<rparr>) = (t0, [])
     \<and> evaluate ''ss'' (t0\<lparr>args := [''N'', ''a'', [], ''b'']\<rparr>) = (t1, [])
     \<and> map_of (forms t1) ''N''
         = Some [Lit [], Marker 1, Lit ''-'', Marker 3, Lit ''-'', Marker 1, Lit []]
     \<and> evaluate ''cl'' (t1\<lparr>args := [''N'', ''X'', ''Q'', ''Y'']\<rparr>)
         = (t1\<lparr>args := [''N'', ''X'', ''Q'', ''Y'']\<rparr>, ''X-Y-X'')"
proof -
  have h: "overlap_free [''a'', [], ''b''] ''a-b-a''" by code_simp
  have v: "spec_replace (zip [''a'', [], ''b''] [''X'', ''Q'', ''Y'']) ''a-b-a'' = ''X-Y-X''"
    by code_simp
  have w: "spec_parts (zip [''a'', [], ''b''] (map Suc [0..<length [''a'', [], ''b'']])) ''a-b-a''
      = [Lit [], Marker 1, Lit ''-'', Marker 3, Lit ''-'', Marker 1, Lit []]"
    by code_simp
  from ss_then_cl [where N = "''N''" and As = "[''X'', ''Q'', ''Y'']"
      and Ps = "[''a'', [], ''b'']" and B = "''a-b-a''" and t = new_trac, OF _ _ h]
  show ?thesis unfolding v w by simp
qed

end
